theory Spec2Isabelle
  imports Main "HOL-Library.AList"
begin

section \<open>Data model (src/types.ts)\<close>

text \<open>
  The workflow builder keeps a node map \<open>Record<string, WorkflowNode>\<close>. An edge has an
  optional target id and a label; a node has an id, a label, a type and its ordered edges.
  The field names \<open>id\<close>, \<open>label\<close> and \<open>type\<close> of the source carry the suffix of their
  record here.
\<close>

datatype NodeType = Action | Branch | End

record Edge =
  id_edge :: "string option"
  label_edge :: string

record WorkflowNode =
  id_node :: string
  label_node :: string
  type_node :: NodeType
  children :: "Edge list"

record ParentMatch =
  parentId :: string
  edgeIndex :: nat

text \<open>
  What an own key of the node map can be bound to at run time: a node, the value
  \<open>undefined\<close> (\<open>updateLabel\<close> with an unknown id stores it), or an object that is no node:
  \<open>updateLabel\<close> with the name of a member of \<open>Object.prototype\<close> stores \<open>{label}\<close>, which is
  truthy and has no \<open>id\<close>, \<open>type\<close> or \<open>children\<close>.
\<close>

datatype entry = Node WorkflowNode | Undefined | Foreign

text \<open>
  A JavaScript object with string keys, as an association list of its own keys in the
  order \<open>Object.values\<close> enumerates them: insertion order, for keys such as \<open>node-7\<close> that are
  not array indices (keys that are would come first, in numeric order; the order only
  matters to \<open>cloneNodes\<close> on a map that holds two nodes with the same id).
  \<open>{...prev, [k]: v}\<close> is \<open>AList.update k v prev\<close> (an existing key keeps its place, a new one
  goes last) and \<open>delete m[k]\<close> is \<open>AList.delete k m\<close>.
\<close>

type_synonym graph = "(string \<times> entry) list"

text \<open>The names every plain object inherits from \<open>Object.prototype\<close>.\<close>

definition inheritedNames :: "string list" where
  "inheritedNames =
     [''constructor'', ''__defineGetter__'', ''__defineSetter__'', ''hasOwnProperty'',
      ''__lookupGetter__'', ''__lookupSetter__'', ''isPrototypeOf'', ''propertyIsEnumerable'',
      ''toString'', ''valueOf'', ''__proto__'', ''toLocaleString'']"

text \<open>
  \<open>map[k]\<close> as JavaScript reads it: the value of the own key when there is one; otherwise
  the prototype chain answers, with a function or with \<open>Object.prototype\<close> itself for an
  inherited name (truthy, and no node), and with \<open>undefined\<close> for any other name.
\<close>

definition jsGet :: "graph \<Rightarrow> string \<Rightarrow> entry" where
  "jsGet m k =
     (case map_of m k of
        Some v \<Rightarrow> v
      | None \<Rightarrow> if k \<in> set inheritedNames then Foreign else Undefined)"

text \<open>
  The node stored under an own key, if there is one: the nodes of the graph, for the
  statements about it. The code does not read the map this way; its reads \<open>map[k]\<close> are
  \<open>jsGet\<close>.
\<close>

definition lookup :: "graph \<Rightarrow> string \<Rightarrow> WorkflowNode option" where
  "lookup g k = (case map_of g k of Some (Node n) \<Rightarrow> Some n | _ \<Rightarrow> None)"

text \<open>Truthiness of an optional string (\<open>if (childId)\<close>, \<open>filter((edge) => edge.id)\<close>):
  \<open>undefined\<close> and the empty string are falsy.\<close>

fun truthy :: "string option \<Rightarrow> bool" where
  "truthy None = False"
| "truthy (Some s) = (s \<noteq> [])"

definition connected :: "Edge \<Rightarrow> bool" where
  "connected e = truthy (id_edge e)"

text \<open>Decimal rendering of a non-negative integer, as a template literal prints it
  (for numbers of at most 21 digits; from there on JavaScript prints an exponent).\<close>

definition digit :: "nat \<Rightarrow> char" where
  "digit d = ''0123456789'' ! d"

fun showNat :: "nat \<Rightarrow> string" where
  "showNat n = (if n < 10 then [digit n] else showNat (n div 10) @ [digit (n mod 10)])"

declare showNat.simps [simp del]

section \<open>Edge and node model (src/utils/workflow.ts)\<close>

definition BRANCH_BASE :: "string list" where
  "BRANCH_BASE = [''True'', ''False'']"

definition hasLabel :: "string \<Rightarrow> Edge list \<Rightarrow> bool" where
  "hasLabel l edges = list_ex (\<lambda>edge. label_edge edge = l) edges"

definition pushMissing :: "Edge list \<Rightarrow> string \<Rightarrow> Edge list" where
  "pushMissing edges l =
     (if \<not> hasLabel l edges then edges @ [\<lparr>id_edge = None, label_edge = l\<rparr>] else edges)"

definition ensureBranchEdges :: "Edge list \<Rightarrow> Edge list" where
  "ensureBranchEdges cs = foldl pushMissing cs BRANCH_BASE"

definition createNode :: "string \<Rightarrow> NodeType \<Rightarrow> WorkflowNode" where
  "createNode i t =
     (if t = Branch then
        \<lparr>id_node = i, label_node = ''Branch'', type_node = t, children = ensureBranchEdges []\<rparr>
      else if t = End then
        \<lparr>id_node = i, label_node = ''End'', type_node = t, children = []\<rparr>
      else \<lparr>id_node = i, label_node = ''Action'', type_node = t, children = []\<rparr>)"

section \<open>Graph index operations (src/utils/workflow.ts)\<close>

text \<open>
  The exceptions of the program, as values. \<open>TypeError\<close>: a property of \<open>undefined\<close> is
  read. \<open>RangeError\<close>: the call stack is exhausted. \<open>ProtoAssigned\<close> is no exception: it
  marks the assignment \<open>result['__proto__'] = ...\<close> of \<open>cloneNodes\<close>, which replaces the
  prototype of the result instead of storing the node; the model ends the run there.
\<close>

datatype fault = TypeError | RangeError | ProtoAssigned

text \<open>
  \<open>findParent\<close> recurses along the edges and does not return on a cyclic map (the call
  stack overflows). The fuel argument bounds the recursion depth; running out of fuel is
  \<open>Inl RangeError\<close>, the answer \<open>null\<close> is \<open>Inr None\<close> and a match is \<open>Inr (Some m)\<close>. When
  \<open>map[currentId]\<close> is truthy and no node, \<open>node.children\<close> is \<open>undefined\<close> and reading its
  \<open>length\<close> throws. \<open>scan\<close> is the \<open>for\<close> loop over \<open>node.children\<close> from index \<open>i\<close> on, with
  the recursive call as its first argument.
\<close>

type_synonym visit = "string \<times> nat \<times> string option"

fun scan :: "(string \<Rightarrow> fault + ParentMatch option) \<Rightarrow> string \<Rightarrow> string \<Rightarrow> Edge list \<Rightarrow> nat
    \<Rightarrow> fault + ParentMatch option" where
  "scan rec currentId targetId [] i = Inr None"
| "scan rec currentId targetId (e # es) i =
     (if id_edge e = Some targetId then Inr (Some \<lparr>parentId = currentId, edgeIndex = i\<rparr>)
      else if truthy (id_edge e) then
        (case rec (the (id_edge e)) of
           Inl f \<Rightarrow> Inl f
         | Inr (Some nested) \<Rightarrow> Inr (Some nested)
         | Inr None \<Rightarrow> scan rec currentId targetId es (Suc i))
      else scan rec currentId targetId es (Suc i))"

primrec findParent :: "nat \<Rightarrow> string \<Rightarrow> string \<Rightarrow> graph \<Rightarrow> fault + ParentMatch option" where
  "findParent 0 currentId targetId m = Inl RangeError"
| "findParent (Suc fuel) currentId targetId m =
     (case jsGet m currentId of
        Undefined \<Rightarrow> Inr None
      | Foreign \<Rightarrow> Inl TypeError
      | Node node \<Rightarrow>
          scan (\<lambda>c. findParent fuel c targetId m) currentId targetId (children node) 0)"

text \<open>
  The depth-first traversal in the words of the specification, over the nodes of the
  map: from a node, each edge in stored order, the edge itself first (owner, index,
  target) and then, only when the edge has a connected target, everything below that
  target. \<open>None\<close> when the depth bound is
  reached. \<open>firstMatch\<close> is the first visited edge whose target is the sought id.
\<close>

fun walkEdges :: "(string \<Rightarrow> visit list option) \<Rightarrow> string \<Rightarrow> Edge list \<Rightarrow> nat \<Rightarrow> visit list option" where
  "walkEdges rec cur [] i = Some []"
| "walkEdges rec cur (e # es) i =
     (case (if connected e then rec (the (id_edge e)) else Some []) of
        None \<Rightarrow> None
      | Some below \<Rightarrow>
          (case walkEdges rec cur es (Suc i) of
             None \<Rightarrow> None
           | Some rest \<Rightarrow> Some ((cur, i, id_edge e) # below @ rest)))"

primrec traversal :: "nat \<Rightarrow> string \<Rightarrow> graph \<Rightarrow> visit list option" where
  "traversal 0 cur m = None"
| "traversal (Suc depth) cur m =
     (case lookup m cur of
        None \<Rightarrow> Some []
      | Some node \<Rightarrow> walkEdges (\<lambda>c. traversal depth c m) cur (children node) 0)"

definition firstMatch :: "string \<Rightarrow> visit list \<Rightarrow> ParentMatch option" where
  "firstMatch t vs =
     (case find (\<lambda>(p, i, tgt). tgt = Some t) vs of
        None \<Rightarrow> None
      | Some (p, i, tgt) \<Rightarrow> Some \<lparr>parentId = p, edgeIndex = i\<rparr>)"

text \<open>The edges of the graph: from an existing node along a connected edge.\<close>

definition succs :: "graph \<Rightarrow> (string \<times> string) set" where
  "succs g = {(a, b). \<exists>n e. lookup g a = Some n \<and> e \<in> set (children n) \<and>
                 id_edge e = Some b \<and> b \<noteq> []}"

section \<open>Mutation engine (src/App.tsx)\<close>

definition rootId :: string where
  "rootId = ''node-0''"

text \<open>\<open>Array.prototype.findIndex\<close>, with \<open>None\<close> for \<open>-1\<close>.\<close>

primrec findIndex :: "('a \<Rightarrow> bool) \<Rightarrow> 'a list \<Rightarrow> nat option" where
  "findIndex P [] = None"
| "findIndex P (x # xs) = (if P x then Some 0 else map_option Suc (findIndex P xs))"

text \<open>\<open>nextId\<close> at the value \<open>idCounter.current\<close> holds when it is called. The effect on
  \<open>nodes\<close> resets the counter to \<open>maxId + 1\<close> with \<open>maxId \<ge> 0\<close> after every change of the
  graph, so the value is at least 1 whenever an operation starts.\<close>

definition nextId :: "nat \<Rightarrow> string" where
  "nextId v = ''node-'' @ showNat v"

text \<open>
  The effect that resets the counter: \<open>key.replace('node-', '')\<close> removes the first
  occurrence of the pattern, \<open>Number\<close> reads the rest, and the counter becomes the largest
  number read, plus one. \<open>toNumber\<close> is \<open>Number\<close> on strings of decimal digits (the empty
  string is 0); every other string counts as \<open>NaN\<close> here. \<open>Number\<close> also reads signs,
  fractions, exponents, blanks, other radixes and \<open>Infinity\<close>; no key made by \<open>nextId\<close> has
  such a remainder.
\<close>

fun removeFirst :: "string \<Rightarrow> string \<Rightarrow> string" where
  "removeFirst pat [] = []"
| "removeFirst pat (c # cs) =
     (if take (length pat) (c # cs) = pat then drop (length pat) (c # cs)
      else c # removeFirst pat cs)"

definition digitValue :: "char \<Rightarrow> nat option" where
  "digitValue c = findIndex (\<lambda>d. d = c) ''0123456789''"

fun toNumberFrom :: "nat \<Rightarrow> string \<Rightarrow> nat option" where
  "toNumberFrom acc [] = Some acc"
| "toNumberFrom acc (c # cs) =
     (case digitValue c of None \<Rightarrow> None | Some d \<Rightarrow> toNumberFrom (10 * acc + d) cs)"

definition toNumber :: "string \<Rightarrow> nat option" where
  "toNumber s = toNumberFrom 0 s"

definition maxId :: "graph \<Rightarrow> nat" where
  "maxId m =
     foldl (\<lambda>mx key. case toNumber (removeFirst ''node-'' key) of
                        None \<Rightarrow> mx
                      | Some num \<Rightarrow> max mx num)
       0 (map fst m)"

definition idCounter :: "graph \<Rightarrow> nat" where
  "idCounter m = maxId m + 1"

text \<open>
  The updater functions handed to \<open>applyChange\<close> return \<open>prev\<close> itself when nothing
  applies and a new object otherwise; \<open>applyChange\<close> tells the two apart by reference
  (\<open>next === prev\<close>). \<open>Unchanged\<close> is the same reference, \<open>Changed g\<close> a new object.
\<close>

datatype 'a change = Unchanged | Changed 'a

definition attachExistingChild :: "WorkflowNode \<Rightarrow> string option \<Rightarrow> WorkflowNode" where
  "attachExistingChild node childId =
     (if \<not> truthy childId then node
      else if type_node node = Branch then
        (let edges = ensureBranchEdges (children node)
         in node\<lparr>children := edges[0 := (edges ! 0)\<lparr>id_edge := childId\<rparr>]\<rparr>)
      else if type_node node = Action then
        node\<lparr>children := [\<lparr>id_edge = childId, label_edge = ''Next''\<rparr>]\<rparr>
      else node)"

text \<open>
  The slot of a Branch parent that \<open>addNode\<close> writes (\<open>matchIndex\<close> and \<open>targetIndex\<close>):
  the first edge with the given label, and the first edge when the label is \<open>null\<close>, empty
  or not found.
\<close>

definition targetIndex :: "string option \<Rightarrow> Edge list \<Rightarrow> nat" where
  "targetIndex branchLabel edges =
     (case (if truthy branchLabel
            then findIndex (\<lambda>edge. label_edge edge = the branchLabel) edges
            else Some 0) of None \<Rightarrow> 0 | Some i \<Rightarrow> i)"

text \<open>
  The updater of \<open>addNode\<close>, with the id \<open>nextId()\<close> returned as \<open>newId\<close>. The new node is
  stored in \<open>updated\<close> before \<open>attachExistingChild\<close> mutates it; both are the same object,
  so the map holds the node with its child attached. When \<open>prev[parentId]\<close> is truthy and
  no node, its \<open>type\<close> is \<open>undefined\<close>: no test on it holds and \<open>updated\<close> is returned with the
  new node in it and no edge to it.
\<close>

definition addNode_next ::
    "string \<Rightarrow> string \<Rightarrow> string option \<Rightarrow> NodeType \<Rightarrow> graph \<Rightarrow> graph change" where
  "addNode_next newId parent_id branchLabel t prev =
     (case jsGet prev parent_id of
        Undefined \<Rightarrow> Unchanged
      | Foreign \<Rightarrow> Changed (AList.update newId (Node (createNode newId t)) prev)
      | Node parent \<Rightarrow>
          if type_node parent = End then Unchanged
          else if type_node parent = Action then
            (let existing = (case children parent of [] \<Rightarrow> None | e # _ \<Rightarrow> id_edge e);
                 newNode = attachExistingChild (createNode newId t) existing;
                 updated = AList.update newId (Node newNode) prev
             in Changed (AList.update parent_id
                  (Node (parent\<lparr>children := [\<lparr>id_edge = Some newId, label_edge = ''Next''\<rparr>]\<rparr>))
                  updated))
          else
            (let edges = ensureBranchEdges (children parent);
                 i = targetIndex branchLabel edges;
                 priorTarget = id_edge (edges ! i);
                 newNode = attachExistingChild (createNode newId t) priorTarget;
                 updated = AList.update newId (Node newNode) prev
             in Changed (AList.update parent_id
                  (Node (parent\<lparr>children := edges[i := (edges ! i)\<lparr>id_edge := Some newId\<rparr>]\<rparr>))
                  updated)))"

text \<open>The edges that replace a branch slot when the deleted node had several connected
  edges: \<open>adopted.map((edge, idx) => ...)\<close>.\<close>

definition replacements :: "Edge \<Rightarrow> Edge list \<Rightarrow> Edge list" where
  "replacements base adopted =
     map (\<lambda>(idx, edge).
            \<lparr>id_edge = id_edge edge,
             label_edge = (if label_edge edge \<noteq> [] then label_edge base @ '' + '' @ label_edge edge
                           else label_edge base @ '' path '' @ showNat (idx + 1))\<rparr>)
         (enumerate 0 adopted)"

text \<open>
  The updater of \<open>deleteNode\<close>. \<open>rewireAction\<close> and \<open>rewireBranch\<close> are the new
  \<open>children\<close> of the parent in its two branches (\<open>parent.type === 'action'\<close> and
  \<open>'branch'\<close>), from the parent, the edge index and the adopted edges. The index
  \<open>findParent\<close> returns is an index of \<open>parent.children\<close> (lemma \<open>findParent_sound\<close>), so
  the writes \<open>edges[edgeIndex] = ...\<close> and the \<open>splice\<close> are always in range and the defaults
  \<open>?? 'Next'\<close> are never taken; they are kept as the source has them. A target that is
  truthy and no node has no \<open>children\<close>, and \<open>target.children.filter\<close> throws.
\<close>

definition rewireAction :: "WorkflowNode \<Rightarrow> nat \<Rightarrow> Edge list \<Rightarrow> Edge list" where
  "rewireAction parent i adopted =
     (case adopted of
        [] \<Rightarrow> []
      | nxt # _ \<Rightarrow>
          [\<lparr>id_edge = id_edge nxt,
            label_edge = (if i < length (children parent) then label_edge (children parent ! i)
                          else ''Next'')\<rparr>])"

definition rewireBranch :: "WorkflowNode \<Rightarrow> nat \<Rightarrow> Edge list \<Rightarrow> Edge list" where
  "rewireBranch parent i adopted =
     (let edges = ensureBranchEdges (children parent);
          base = (if i < length edges then edges ! i else \<lparr>id_edge = None, label_edge = ''Next''\<rparr>);
          edges' =
            (if length adopted = 0 then edges[i := base\<lparr>id_edge := None\<rparr>]
             else if length adopted = 1 then edges[i := base\<lparr>id_edge := id_edge (adopted ! 0)\<rparr>]
             else take i edges @ replacements base adopted @ drop (Suc i) edges)
      in ensureBranchEdges edges')"

definition deleteNode_next :: "nat \<Rightarrow> string \<Rightarrow> graph \<Rightarrow> fault + graph change" where
  "deleteNode_next fuel targetId prev =
     (case findParent fuel rootId targetId prev of
        Inl f \<Rightarrow> Inl f
      | Inr None \<Rightarrow> Inr Unchanged
      | Inr (Some relation) \<Rightarrow>
          (let parent = jsGet prev (parentId relation);
               target = jsGet prev targetId
           in if parent = Undefined \<or> target = Undefined then Inr Unchanged
              else
                (let updated = AList.delete targetId prev;
                     i = edgeIndex relation
                 in case target of
                      Node targetNode \<Rightarrow>
                        (let adopted = filter connected (children targetNode)
                         in case parent of
                              Node parentNode \<Rightarrow>
                                if type_node parentNode = Action then
                                  Inr (Changed (AList.update (parentId relation)
                                    (Node (parentNode\<lparr>children :=
                                       rewireAction parentNode i adopted\<rparr>)) updated))
                                else if type_node parentNode = Branch then
                                  Inr (Changed (AList.update (parentId relation)
                                    (Node (parentNode\<lparr>children :=
                                       rewireBranch parentNode i adopted\<rparr>)) updated))
                                else Inr (Changed updated)
                            | _ \<Rightarrow> Inr (Changed updated))
                    | _ \<Rightarrow> Inl TypeError)))"

text \<open>
  The updater of \<open>updateLabel\<close>: the key is always written. A node gets the new label; a
  falsy value is stored as it is; an object that is no node is spread into a new object
  with the label, which is no node either.
\<close>

definition updateLabel_next :: "string \<Rightarrow> string \<Rightarrow> graph \<Rightarrow> graph" where
  "updateLabel_next i l prev =
     AList.update i
       (case jsGet prev i of
          Node node \<Rightarrow> Node (node\<lparr>label_node := l\<rparr>)
        | Undefined \<Rightarrow> Undefined
        | Foreign \<Rightarrow> Foreign) prev"

definition addBranchPath_next :: "string \<Rightarrow> graph \<Rightarrow> graph change" where
  "addBranchPath_next nodeId prev =
     (case jsGet prev nodeId of
        Node node \<Rightarrow>
          if type_node node \<noteq> Branch then Unchanged
          else
            (let nextLabel = ''Path '' @ showNat (length (children node) + 1);
                 children' = children node @ [\<lparr>id_edge = None, label_edge = nextLabel\<rparr>]
             in Changed (AList.update nodeId (Node (node\<lparr>children := children'\<rparr>)) prev))
      | _ \<Rightarrow> Unchanged)"

section \<open>History manager (src/App.tsx)\<close>

text \<open>
  \<open>cloneNodes\<close> walks \<open>Object.values(map)\<close> and stores a copy of each node under the
  node's own id. Reading \<open>node.id\<close> of \<open>undefined\<close> throws a TypeError, and so does
  \<open>node.children.map\<close> of an object that is no node. The assignment to the key
  \<open>__proto__\<close> of the fresh object stores nothing (see \<open>ProtoAssigned\<close>).
\<close>

fun cloneInto :: "graph \<Rightarrow> entry list \<Rightarrow> fault + graph" where
  "cloneInto result [] = Inr result"
| "cloneInto result (Undefined # vs) = Inl TypeError"
| "cloneInto result (Foreign # vs) = Inl TypeError"
| "cloneInto result (Node node # vs) =
     (if id_node node = ''__proto__'' then Inl ProtoAssigned
      else cloneInto (AList.update (id_node node) (Node node) result) vs)"

definition cloneNodes :: "graph \<Rightarrow> fault + graph" where
  "cloneNodes m = cloneInto [] (map snd m)"

record App =
  nodes :: graph
  history :: "graph list"
  historyIndex :: nat

definition defaultGraph :: graph where
  "defaultGraph =
     [(rootId, Node \<lparr>id_node = rootId, label_node = ''Start'', type_node = Action, children = []\<rparr>)]"

text \<open>\<open>loadInitial\<close>, from the parsed content of the storage (\<open>None\<close> when there is none or
  it does not parse).\<close>

definition loadInitial :: "graph option \<Rightarrow> graph" where
  "loadInitial raw =
     (case raw of
        None \<Rightarrow> defaultGraph
      | Some parsed \<Rightarrow> if jsGet parsed rootId = Undefined then defaultGraph else parsed)"

definition initialApp :: "graph \<Rightarrow> fault + App" where
  "initialApp loaded =
     (case cloneNodes loaded of
        Inl f \<Rightarrow> Inl f
      | Inr g \<Rightarrow> Inr \<lparr>nodes = g, history = [g], historyIndex = 0\<rparr>)"

text \<open>
  \<open>applyChange\<close>. A fault of the updater or of \<open>cloneNodes\<close> is thrown inside the state
  updater and ends the run (\<open>Inl\<close>). Each operation runs in the render that follows the
  previous one, so the \<open>historyIndex\<close> its closure holds is the current one.
\<close>

definition applyChange :: "(graph \<Rightarrow> fault + graph change) \<Rightarrow> bool \<Rightarrow> App \<Rightarrow> fault + App" where
  "applyChange updater trackHistory s =
     (case updater (nodes s) of
        Inl f \<Rightarrow> Inl f
      | Inr Unchanged \<Rightarrow> Inr s
      | Inr (Changed next) \<Rightarrow>
          if trackHistory then
            (case cloneNodes next of
               Inl f \<Rightarrow> Inl f
             | Inr snapshot \<Rightarrow>
                 Inr (s\<lparr>nodes := next,
                        history := take (historyIndex s + 1) (history s) @ [snapshot],
                        historyIndex := historyIndex s + 1\<rparr>))
          else Inr (s\<lparr>nodes := next\<rparr>))"

definition undo :: "App \<Rightarrow> fault + App" where
  "undo s =
     (if historyIndex s = 0 then Inr s
      else
        (let nextIndex = historyIndex s - 1
         in if nextIndex < length (history s) then
              (case cloneNodes (history s ! nextIndex) of
                 Inl f \<Rightarrow> Inl f
               | Inr g \<Rightarrow> Inr (s\<lparr>historyIndex := nextIndex, nodes := g\<rparr>))
            else Inl TypeError))"

definition redo :: "App \<Rightarrow> fault + App" where
  "redo s =
     (if historyIndex s \<ge> length (history s) - 1 then Inr s
      else
        (let nextIndex = historyIndex s + 1
         in if nextIndex < length (history s) then
              (case cloneNodes (history s ! nextIndex) of
                 Inl f \<Rightarrow> Inl f
               | Inr g \<Rightarrow> Inr (s\<lparr>historyIndex := nextIndex, nodes := g\<rparr>))
            else Inl TypeError))"

definition addNode :: "nat \<Rightarrow> string \<Rightarrow> string option \<Rightarrow> NodeType \<Rightarrow> App \<Rightarrow> fault + App" where
  "addNode v parent_id branchLabel t s =
     applyChange (\<lambda>prev. Inr (addNode_next (nextId v) parent_id branchLabel t prev)) True s"

definition deleteNode :: "nat \<Rightarrow> string \<Rightarrow> App \<Rightarrow> fault + App" where
  "deleteNode fuel targetId s =
     (if targetId = rootId then Inr s else applyChange (deleteNode_next fuel targetId) True s)"

definition updateLabel :: "string \<Rightarrow> string \<Rightarrow> App \<Rightarrow> App" where
  "updateLabel i l s = s\<lparr>nodes := updateLabel_next i l (nodes s)\<rparr>"

definition addBranchPath :: "string \<Rightarrow> App \<Rightarrow> fault + App" where
  "addBranchPath nodeId s = applyChange (\<lambda>prev. Inr (addBranchPath_next nodeId prev)) True s"

text \<open>
  The operations the user interface calls, as data: \<open>Insert v p l t\<close> is \<open>addNode(p, l, t)\<close>
  called while \<open>idCounter.current\<close> is \<open>v\<close>, and \<open>Delete fuel t\<close> is \<open>deleteNode(t)\<close> with the
  recursion depth \<open>fuel\<close> available to \<open>findParent\<close>.
\<close>

datatype op =
    Insert nat string "string option" NodeType
  | Delete nat string
  | UpdateLabel string string
  | AddBranchPath string
  | Undo
  | Redo

fun exec :: "op \<Rightarrow> App \<Rightarrow> fault + App" where
  "exec (Insert v p l t) s = addNode v p l t s"
| "exec (Delete fuel t) s = deleteNode fuel t s"
| "exec (UpdateLabel i l) s = Inr (updateLabel i l s)"
| "exec (AddBranchPath n) s = addBranchPath n s"
| "exec Undo s = undo s"
| "exec Redo s = redo s"

fun run :: "op list \<Rightarrow> App \<Rightarrow> fault + App" where
  "run [] s = Inr s"
| "run (x # xs) s = (case exec x s of Inl f \<Rightarrow> Inl f | Inr s' \<Rightarrow> run xs s')"

text \<open>An operation the counter allows: \<open>idCounter.current\<close> is at least 1.\<close>

fun counterOk :: "op \<Rightarrow> bool" where
  "counterOk (Insert v p l t) = (1 \<le> v)"
| "counterOk _ = True"

text \<open>The operations recorded in the history.\<close>

fun trackable :: "op \<Rightarrow> bool" where
  "trackable (Insert v p l t) = True"
| "trackable (Delete fuel t) = True"
| "trackable (AddBranchPath n) = True"
| "trackable _ = False"

section \<open>Reachability and example graphs\<close>

text \<open>The edges that do not enter \<open>t\<close>, and the nodes of the map that a path of edges
  reaches from the root.\<close>

definition avoiding :: "string \<Rightarrow> graph \<Rightarrow> (string \<times> string) set" where
  "avoiding t g = {(a, b). (a, b) \<in> succs g \<and> b \<noteq> t}"

definition reachable :: "graph \<Rightarrow> string \<Rightarrow> bool" where
  "reachable g x = ((rootId, x) \<in> (succs g)\<^sup>* \<and> lookup g x \<noteq> None)"

text \<open>The root with one action below it.\<close>

definition chainGraph :: graph where
  "chainGraph =
     [(rootId, Node \<lparr>id_node = rootId, label_node = ''Start'', type_node = Action,
         children = [\<lparr>id_edge = Some ''node-1'', label_edge = ''Next''\<rparr>]\<rparr>),
      (''node-1'', Node \<lparr>id_node = ''node-1'', label_node = ''Action'', type_node = Action,
         children = []\<rparr>)]"

text \<open>The state the application starts in when the storage is empty.\<close>

definition startApp :: App where
  "startApp = \<lparr>nodes = defaultGraph, history = [defaultGraph], historyIndex = 0\<rparr>"

text \<open>The two unconnected edges that normalisation can append.\<close>

definition canonicalSlots :: "Edge set" where
  "canonicalSlots = {\<lparr>id_edge = None, label_edge = ''True''\<rparr>, \<lparr>id_edge = None, label_edge = ''False''\<rparr>}"

text \<open>The root, a Branch below it, and below its "True" edge a Branch with two
  connected edges.\<close>

definition forkGraph :: graph where
  "forkGraph =
     [(rootId, Node \<lparr>id_node = rootId, label_node = ''Start'', type_node = Action,
         children = [\<lparr>id_edge = Some ''node-1'', label_edge = ''Next''\<rparr>]\<rparr>),
      (''node-1'', Node \<lparr>id_node = ''node-1'', label_node = ''Branch'', type_node = Branch,
         children = [\<lparr>id_edge = Some ''node-2'', label_edge = ''True''\<rparr>,
                     \<lparr>id_edge = None, label_edge = ''False''\<rparr>]\<rparr>),
      (''node-2'', Node \<lparr>id_node = ''node-2'', label_node = ''Branch'', type_node = Branch,
         children = [\<lparr>id_edge = Some ''node-3'', label_edge = ''True''\<rparr>,
                     \<lparr>id_edge = Some ''node-4'', label_edge = ''''\<rparr>]\<rparr>),
      (''node-3'', Node \<lparr>id_node = ''node-3'', label_node = ''Action'', type_node = Action,
         children = []\<rparr>),
      (''node-4'', Node \<lparr>id_node = ''node-4'', label_node = ''End'', type_node = End,
         children = []\<rparr>)]"

text \<open>A stored Branch without its canonical edges, as a saved workflow can hold it.\<close>

definition bareBranchGraph :: graph where
  "bareBranchGraph =
     [(rootId, Node \<lparr>id_node = rootId, label_node = ''Start'', type_node = Action,
         children = [\<lparr>id_edge = Some ''node-1'', label_edge = ''Next''\<rparr>]\<rparr>),
      (''node-1'', Node \<lparr>id_node = ''node-1'', label_node = ''Branch'', type_node = Branch,
         children = [\<lparr>id_edge = Some ''node-2'', label_edge = ''Left''\<rparr>]\<rparr>),
      (''node-2'', Node \<lparr>id_node = ''node-2'', label_node = ''Action'', type_node = Action,
         children = []\<rparr>)]"

text \<open>The root and below it a Branch with two connected edges.\<close>

definition branchBelowRoot :: graph where
  "branchBelowRoot =
     [(rootId, Node \<lparr>id_node = rootId, label_node = ''Start'', type_node = Action,
         children = [\<lparr>id_edge = Some ''node-1'', label_edge = ''Next''\<rparr>]\<rparr>),
      (''node-1'', Node \<lparr>id_node = ''node-1'', label_node = ''Branch'', type_node = Branch,
         children = [\<lparr>id_edge = Some ''node-2'', label_edge = ''True''\<rparr>,
                     \<lparr>id_edge = Some ''node-3'', label_edge = ''False''\<rparr>]\<rparr>),
      (''node-2'', Node \<lparr>id_node = ''node-2'', label_node = ''Action'', type_node = Action,
         children = []\<rparr>),
      (''node-3'', Node \<lparr>id_node = ''node-3'', label_node = ''Action'', type_node = Action,
         children = []\<rparr>)]"

text \<open>What is left of \<open>branchBelowRoot\<close> when its Branch is deleted.\<close>

definition afterBranchDeleted :: graph where
  "afterBranchDeleted =
     [(rootId, Node \<lparr>id_node = rootId, label_node = ''Start'', type_node = Action,
         children = [\<lparr>id_edge = Some ''node-2'', label_edge = ''Next''\<rparr>]\<rparr>),
      (''node-2'', Node \<lparr>id_node = ''node-2'', label_node = ''Action'', type_node = Action,
         children = []\<rparr>),
      (''node-3'', Node \<lparr>id_node = ''node-3'', label_node = ''Action'', type_node = Action,
         children = []\<rparr>)]"

text \<open>\<open>chainGraph\<close> with a Branch inserted between the root and its successor.\<close>

definition splicedGraph :: graph where
  "splicedGraph =
     [(rootId, Node \<lparr>id_node = rootId, label_node = ''Start'', type_node = Action,
         children = [\<lparr>id_edge = Some ''node-2'', label_edge = ''Next''\<rparr>]\<rparr>),
      (''node-1'', Node \<lparr>id_node = ''node-1'', label_node = ''Action'', type_node = Action,
         children = []\<rparr>),
      (''node-2'', Node \<lparr>id_node = ''node-2'', label_node = ''Branch'', type_node = Branch,
         children = [\<lparr>id_edge = Some ''node-1'', label_edge = ''True''\<rparr>,
                     \<lparr>id_edge = None, label_edge = ''False''\<rparr>]\<rparr>)]"

text \<open>A map as \<open>cloneNodes\<close> returns it: distinct keys, every key bound to a node that
  carries the key as its id, and no key \<open>__proto__\<close>.\<close>

definition clean :: "graph \<Rightarrow> bool" where
  "clean g = (distinct (map fst g) \<and> ''__proto__'' \<notin> fst ` set g \<and>
              (\<forall>(k, v)\<in>set g. \<exists>n. v = Node n \<and> id_node n = k))"

text \<open>The invariant of the live graph: distinct keys, every node stored under its own id,
  and the root an Action node.\<close>

definition keyed :: "graph \<Rightarrow> bool" where
  "keyed g = (distinct (map fst g) \<and> (\<forall>(k, v)\<in>set g. \<forall>n. v = Node n \<longrightarrow> id_node n = k))"

definition rootOk :: "graph \<Rightarrow> bool" where
  "rootOk g = (\<exists>root. lookup g rootId = Some root \<and> type_node root = Action)"

text \<open>The number of operations of a run that were recorded in the history.\<close>

fun commits :: "op list \<Rightarrow> App \<Rightarrow> nat" where
  "commits [] s = 0"
| "commits (x # xs) s =
     (case exec x s of
        Inl f \<Rightarrow> 0
      | Inr s' \<Rightarrow> (if trackable x \<and> s' \<noteq> s then 1 else 0) + commits xs s')"

text \<open>The invariant of the history: the cursor is an index of it, its first entry is the
  default graph and every entry is a map as \<open>cloneNodes\<close> returns it.\<close>

definition historyOk :: "App \<Rightarrow> bool" where
  "historyOk s = (historyIndex s < length (history s) \<and> history s ! 0 = defaultGraph \<and>
                  (\<forall>h\<in>set (history s). clean h))"

text \<open>The invariant of the application state from which the root claim follows.\<close>

definition appOk :: "App \<Rightarrow> bool" where
  "appOk s = (keyed (nodes s) \<and> rootOk (nodes s) \<and> historyOk s \<and>
              (\<forall>h\<in>set (history s). rootOk h))"

text \<open>The edges of the nodes that a path of edges reaches from \<open>c\<close>, as visits.\<close>

definition edgesBelow :: "graph \<Rightarrow> string \<Rightarrow> visit set" where
  "edgesBelow g c =
     {(a, i, x). (c, a) \<in> (succs g)\<^sup>* \<and>
        (\<exists>node. lookup g a = Some node \<and> i < length (children node) \<and>
           x = id_edge (children node ! i))}"

text \<open>A saved workflow whose root has an edge to the id \<open>constructor\<close>, for which the map
  holds no node.\<close>

definition protoEdgeGraph :: graph where
  "protoEdgeGraph =
     [(rootId, Node \<lparr>id_node = rootId, label_node = ''Start'', type_node = Action,
         children = [\<lparr>id_edge = Some ''constructor'', label_edge = ''Next''\<rparr>]\<rparr>)]"

text \<open>
  The graph after three insertions into the default graph: an Action below the root, an
  Action below that one, and then an End node below the root, which takes the place of
  the first Action and leaves it without an edge from the root.
\<close>

definition orphanGraph :: graph where
  "orphanGraph =
     [(rootId, Node \<lparr>id_node = rootId, label_node = ''Start'', type_node = Action,
         children = [\<lparr>id_edge = Some ''node-3'', label_edge = ''Next''\<rparr>]\<rparr>),
      (''node-1'', Node \<lparr>id_node = ''node-1'', label_node = ''Action'', type_node = Action,
         children = [\<lparr>id_edge = Some ''node-2'', label_edge = ''Next''\<rparr>]\<rparr>),
      (''node-2'', Node \<lparr>id_node = ''node-2'', label_node = ''Action'', type_node = Action,
         children = []\<rparr>),
      (''node-3'', Node \<lparr>id_node = ''node-3'', label_node = ''End'', type_node = End,
         children = []\<rparr>)]"

text \<open>\<open>orphanGraph\<close> with an Action inserted below its node \<open>node-1\<close>.\<close>

definition orphanInserted :: graph where
  "orphanInserted =
     [(rootId, Node \<lparr>id_node = rootId, label_node = ''Start'', type_node = Action,
         children = [\<lparr>id_edge = Some ''node-3'', label_edge = ''Next''\<rparr>]\<rparr>),
      (''node-1'', Node \<lparr>id_node = ''node-1'', label_node = ''Action'', type_node = Action,
         children = [\<lparr>id_edge = Some ''node-4'', label_edge = ''Next''\<rparr>]\<rparr>),
      (''node-2'', Node \<lparr>id_node = ''node-2'', label_node = ''Action'', type_node = Action,
         children = []\<rparr>),
      (''node-3'', Node \<lparr>id_node = ''node-3'', label_node = ''End'', type_node = End,
         children = []\<rparr>),
      (''node-4'', Node \<lparr>id_node = ''node-4'', label_node = ''Action'', type_node = Action,
         children = [\<lparr>id_edge = Some ''node-2'', label_edge = ''Next''\<rparr>]\<rparr>)]"

text \<open>A map in which every connected edge targets a node of the map.\<close>

definition edgesResolved :: "graph \<Rightarrow> bool" where
  "edgesResolved g = (\<forall>(a, b)\<in>succs g. lookup g b \<noteq> None)"

text \<open>The invariant of every state of the application: the live graph stores every node
  under its own id, the cursor is an index of the history and every entry of the history
  is a map as \<open>cloneNodes\<close> returns it.\<close>

definition stateOk :: "App \<Rightarrow> bool" where
  "stateOk s = (keyed (nodes s) \<and> historyIndex s < length (history s) \<and>
                (\<forall>h\<in>set (history s). clean h))"

section \<open>Branch-edge normalisation\<close>

lemma hasLabel_append [simp]: "hasLabel l (xs @ ys) = (hasLabel l xs \<or> hasLabel l ys)"
  by (simp add: hasLabel_def list_ex_iff) blast

lemma hasLabel_single [simp]:
  "hasLabel l [\<lparr>id_edge = i, label_edge = l'\<rparr>] = (l' = l)"
  by (simp add: hasLabel_def)

lemma ensureBranchEdges_unfold:
  "ensureBranchEdges cs = pushMissing (pushMissing cs ''True'') ''False''"
  by (simp add: ensureBranchEdges_def BRANCH_BASE_def)

lemma ensure_hasTrue [simp]: "hasLabel ''True'' (ensureBranchEdges cs)"
  by (simp add: ensureBranchEdges_unfold pushMissing_def)

lemma ensure_hasFalse [simp]: "hasLabel ''False'' (ensureBranchEdges cs)"
  by (simp add: ensureBranchEdges_unfold pushMissing_def)

lemma ensure_fixed:
  "hasLabel ''True'' cs \<Longrightarrow> hasLabel ''False'' cs \<Longrightarrow> ensureBranchEdges cs = cs"
  by (simp add: ensureBranchEdges_unfold pushMissing_def)

text \<open>
  C7. Branch-edge normalisation is idempotent: normalising an already normalised edge
  sequence returns it as it is, for every edge sequence.
\<close>

theorem ensureBranchEdges_idempotent:
  "ensureBranchEdges (ensureBranchEdges e) = ensureBranchEdges e"
  by (rule ensure_fixed) simp_all

section \<open>Parent lookup\<close>

lemma firstMatch_Nil [simp]: "firstMatch t [] = None"
  by (simp add: firstMatch_def)

lemma firstMatch_Cons:
  "firstMatch t ((p, i, tgt) # vs) =
     (if tgt = Some t then Some \<lparr>parentId = p, edgeIndex = i\<rparr> else firstMatch t vs)"
  by (simp add: firstMatch_def)

lemma firstMatch_append:
  "firstMatch t (xs @ ys) = (case firstMatch t xs of None \<Rightarrow> firstMatch t ys | Some m \<Rightarrow> Some m)"
  by (induction xs) (auto simp: firstMatch_Cons)

lemma lookup_jsGet: "lookup g k = Some n \<longleftrightarrow> jsGet g k = Node n"
  by (auto simp: lookup_def jsGet_def split: option.splits entry.splits)

lemma jsGet_Node: "lookup g k = Some n \<Longrightarrow> jsGet g k = Node n"
  by (simp add: lookup_jsGet)

lemma jsGet_not_Node: "lookup g k = None \<longleftrightarrow> (\<forall>n. jsGet g k \<noteq> Node n)"
  by (cases "lookup g k") (auto simp: lookup_jsGet[symmetric])

lemma jsGet_Undefined: "jsGet g k = Undefined \<Longrightarrow> lookup g k = None"
  by (simp add: jsGet_not_Node)

lemma jsGet_Foreign: "jsGet g k = Foreign \<Longrightarrow> lookup g k = None"
  by (simp add: jsGet_not_Node)

lemma walk_scan:
  assumes "\<And>e vs. e \<in> set es \<Longrightarrow> connected e \<Longrightarrow> rec (the (id_edge e)) = Some vs \<Longrightarrow>
             rec2 (the (id_edge e)) = Inr (firstMatch t vs)"
    and "walkEdges rec cur es i = Some vs"
  shows "scan rec2 cur t es i = Inr (firstMatch t vs)"
  using assms
proof (induction es arbitrary: i vs)
  case Nil
  then show ?case by simp
next
  case (Cons e es)
  have ih: "walkEdges rec cur es (Suc i) = Some rest \<Longrightarrow>
            scan rec2 cur t es (Suc i) = Inr (firstMatch t rest)" for rest
    by (rule Cons.IH) (auto intro: Cons.prems(1))
  show ?case
  proof (cases "connected e")
    case True
    with Cons.prems(2) obtain below rest where
      b: "rec (the (id_edge e)) = Some below" and r: "walkEdges rec cur es (Suc i) = Some rest"
      and v: "vs = (cur, i, id_edge e) # below @ rest"
      by (auto split: option.splits)
    from Cons.prems(1)[OF _ True b]
    have b2: "rec2 (the (id_edge e)) = Inr (firstMatch t below)" by simp
    from ih[OF r] have r2: "scan rec2 cur t es (Suc i) = Inr (firstMatch t rest)" .
    from True have tr: "truthy (id_edge e)" by (simp add: connected_def)
    show ?thesis
      by (cases "firstMatch t below") (simp_all add: v firstMatch_Cons firstMatch_append b2 r2 tr)
  next
    case False
    with Cons.prems(2) obtain rest where r: "walkEdges rec cur es (Suc i) = Some rest"
      and v: "vs = (cur, i, id_edge e) # rest"
      by (auto split: option.splits)
    from ih[OF r] have r2: "scan rec2 cur t es (Suc i) = Inr (firstMatch t rest)" .
    from False have tr: "\<not> truthy (id_edge e)" by (simp add: connected_def)
    show ?thesis by (simp add: v firstMatch_Cons r2 tr)
  qed
qed

text \<open>No node that a path of edges reaches from \<open>c\<close> reads as an object that is no
  node.\<close>

lemma traversal_findParent:
  "traversal n c g = Some vs \<Longrightarrow> \<forall>x. (c, x) \<in> (succs g)\<^sup>* \<longrightarrow> jsGet g x \<noteq> Foreign \<Longrightarrow>
   findParent n c t g = Inr (firstMatch t vs)"
proof (induction n arbitrary: c vs)
  case 0
  then show ?case by simp
next
  case (Suc n)
  from Suc.prems(2) have nf: "jsGet g c \<noteq> Foreign" by blast
  show ?case
  proof (cases "jsGet g c")
    case Undefined
    then have "lookup g c = None" by (rule jsGet_Undefined)
    with Suc.prems(1) Undefined show ?thesis by simp
  next
    case Foreign
    with nf show ?thesis by simp
  next
    case (Node node)
    then have l: "lookup g c = Some node" by (simp add: lookup_jsGet)
    with Suc.prems have w: "walkEdges (\<lambda>c. traversal n c g) c (children node) 0 = Some vs" by simp
    have "scan (\<lambda>c. findParent n c t g) c t (children node) 0 = Inr (firstMatch t vs)"
    proof (rule walk_scan[OF _ w])
      fix e ws
      assume e: "e \<in> set (children node)" and c: "connected e"
        and tr: "traversal n (the (id_edge e)) g = Some ws"
      from c obtain b where b: "id_edge e = Some b" "b \<noteq> []"
        by (cases "id_edge e") (auto simp: connected_def)
      with l e have cb: "(c, b) \<in> succs g" by (auto simp: succs_def)
      have "\<forall>x. (b, x) \<in> (succs g)\<^sup>* \<longrightarrow> jsGet g x \<noteq> Foreign"
        using Suc.prems(2) cb by (blast intro: converse_rtrancl_into_rtrancl)
      from Suc.IH[OF _ this, of ws] tr b
      show "findParent n (the (id_edge e)) t g = Inr (firstMatch t ws)" by simp
    qed
    with Node show ?thesis by simp
  qed
qed

lemma walkEdges_mono:
  assumes "\<And>c vs. rec c = Some vs \<Longrightarrow> rec' c = Some vs"
    and "walkEdges rec cur es i = Some vs"
  shows "walkEdges rec' cur es i = Some vs"
  using assms(2)
proof (induction es arbitrary: i vs)
  case Nil
  then show ?case by simp
next
  case (Cons e es)
  then show ?case
    by (auto split: option.splits if_splits dest: assms(1))
qed

lemma traversal_Suc: "traversal n c g = Some vs \<Longrightarrow> traversal (Suc n) c g = Some vs"
proof (induction n arbitrary: c vs)
  case 0
  then show ?case by simp
next
  case (Suc n)
  show ?case
  proof (cases "lookup g c")
    case None
    with Suc.prems show ?thesis by simp
  next
    case (Some node)
    with Suc.prems have w: "walkEdges (\<lambda>c. traversal n c g) c (children node) 0 = Some vs" by simp
    have "walkEdges (\<lambda>c. traversal (Suc n) c g) c (children node) 0 = Some vs"
      by (rule walkEdges_mono[OF _ w]) (rule Suc.IH)
    with Some show ?thesis by simp
  qed
qed

lemma traversal_mono: "n \<le> k \<Longrightarrow> traversal n c g = Some vs \<Longrightarrow> traversal k c g = Some vs"
  by (induction k) (auto simp: le_Suc_eq dest: traversal_Suc simp del: traversal.simps)

lemma lookup_in_set: "lookup g a = Some n \<Longrightarrow> (a, Node n) \<in> set g"
  by (auto simp: lookup_def split: option.splits entry.splits dest: map_of_SomeD)

lemma finite_succs: "finite (succs g)"
proof -
  let ?E = "\<lambda>(k, v). case v of Node n \<Rightarrow> (\<lambda>e. (k, the (id_edge e))) ` set (children n) | _ \<Rightarrow> {}"
  have "succs g \<subseteq> (\<Union>kv \<in> set g. ?E kv)"
  proof
    fix x assume "x \<in> succs g"
    then obtain a b n e where x: "x = (a, b)" and l: "lookup g a = Some n"
      and e: "e \<in> set (children n)" and i: "id_edge e = Some b"
      by (auto simp: succs_def)
    from l have "(a, Node n) \<in> set g" by (rule lookup_in_set)
    moreover from e i have "(a, b) \<in> ?E (a, Node n)" by force
    ultimately show "x \<in> (\<Union>kv \<in> set g. ?E kv)" unfolding x by blast
  qed
  moreover have "finite (\<Union>kv \<in> set g. ?E kv)"
    by (auto split: entry.splits)
  ultimately show ?thesis by (rule finite_subset)
qed

lemma wf_succs: "acyclic (succs g) \<Longrightarrow> wf ((succs g)\<inverse>)"
  by (simp add: finite_acyclic_wf_converse finite_succs)

lemma walkEdges_total:
  assumes "\<And>e. e \<in> set es \<Longrightarrow> connected e \<Longrightarrow> \<exists>n vs. traversal n (the (id_edge e)) g = Some vs"
  shows "\<exists>n vs. walkEdges (\<lambda>c. traversal n c g) cur es i = Some vs"
  using assms
proof (induction es arbitrary: i)
  case Nil
  show ?case by simp
next
  case (Cons e es)
  from Cons.IH[of "Suc i"] Cons.prems obtain n vs where
    r: "walkEdges (\<lambda>c. traversal n c g) cur es (Suc i) = Some vs" by auto
  show ?case
  proof (cases "connected e")
    case True
    with Cons.prems[of e] obtain k below where b: "traversal k (the (id_edge e)) g = Some below"
      by auto
    let ?m = "max n k"
    have b': "traversal ?m (the (id_edge e)) g = Some below"
      by (rule traversal_mono[OF _ b]) simp
    have r': "walkEdges (\<lambda>c. traversal ?m c g) cur es (Suc i) = Some vs"
      by (rule walkEdges_mono[OF _ r]) (rule traversal_mono, simp_all)
    from True b' r' show ?thesis by (intro exI[of _ ?m]) simp
  next
    case False
    with r show ?thesis by (intro exI[of _ n]) simp
  qed
qed

lemma traversal_total:
  assumes "acyclic (succs g)"
  shows "\<exists>n vs. traversal n c g = Some vs"
proof -
  from assms have "wf ((succs g)\<inverse>)" by (rule wf_succs)
  then show ?thesis
  proof (induction c rule: wf_induct_rule)
    case (less c)
    show ?case
    proof (cases "lookup g c")
      case None
      then have "traversal (Suc 0) c g = Some []" by simp
      then show ?thesis by blast
    next
      case (Some node)
      have "\<exists>n vs. walkEdges (\<lambda>c. traversal n c g) c (children node) 0 = Some vs"
      proof (rule walkEdges_total)
        fix e assume e: "e \<in> set (children node)" and c: "connected e"
        from c obtain b where b: "id_edge e = Some b" "b \<noteq> []"
          by (cases "id_edge e") (auto simp: connected_def)
        with Some e have "(c, b) \<in> succs g" by (auto simp: succs_def)
        then have "\<exists>n vs. traversal n b g = Some vs" by (intro less.IH) simp
        with b show "\<exists>n vs. traversal n (the (id_edge e)) g = Some vs" by simp
      qed
      then obtain n vs where "walkEdges (\<lambda>c. traversal n c g) c (children node) 0 = Some vs"
        by blast
      with Some have "traversal (Suc n) c g = Some vs" by simp
      then show ?thesis by blast
    qed
  qed
qed

lemma walkEdges_set:
  assumes "walkEdges rec cur es i = Some vs"
  shows "set vs = {(cur, i + j, id_edge (es ! j)) | j. j < length es} \<union>
           (\<Union>e\<in>{e \<in> set es. connected e}. set (the (rec (the (id_edge e))))) \<and>
         (\<forall>e\<in>set es. connected e \<longrightarrow> rec (the (id_edge e)) \<noteq> None)"
  using assms
proof (induction es arbitrary: i vs)
  case Nil
  then show ?case by simp
next
  case (Cons e es)
  from Cons.prems obtain below rest where
    b: "(if connected e then rec (the (id_edge e)) else Some []) = Some below"
    and r: "walkEdges rec cur es (Suc i) = Some rest"
    and v: "vs = (cur, i, id_edge e) # below @ rest"
    by (auto split: option.splits)
  from Cons.IH[OF r] have ih:
    "set rest = {(cur, Suc i + j, id_edge (es ! j)) | j. j < length es} \<union>
       (\<Union>e\<in>{e \<in> set es. connected e}. set (the (rec (the (id_edge e)))))"
    "\<forall>e\<in>set es. connected e \<longrightarrow> rec (the (id_edge e)) \<noteq> None" by simp_all
  have own: "{(cur, i + j, id_edge ((e # es) ! j)) | j. j < length (e # es)} =
             insert (cur, i, id_edge e) {(cur, Suc i + j, id_edge (es ! j)) | j. j < length es}"
    (is "?L = ?R")
  proof
    show "?L \<subseteq> ?R"
    proof
      fix x assume "x \<in> ?L"
      then obtain j where j: "j < length (e # es)" "x = (cur, i + j, id_edge ((e # es) ! j))" by blast
      then show "x \<in> ?R" by (cases j) auto
    qed
    show "?R \<subseteq> ?L"
    proof
      fix x assume "x \<in> ?R"
      then consider "x = (cur, i, id_edge e)"
        | j where "j < length es" "x = (cur, Suc i + j, id_edge (es ! j))" by blast
      then show "x \<in> ?L"
      proof cases
        case 1
        then have "x = (cur, i + 0, id_edge ((e # es) ! 0))" "0 < length (e # es)" by simp_all
        then show ?thesis by blast
      next
        case 2
        then have "x = (cur, i + Suc j, id_edge ((e # es) ! Suc j))" "Suc j < length (e # es)"
          by simp_all
        then show ?thesis by blast
      qed
    qed
  qed
  have below: "set below = (if connected e then set (the (rec (the (id_edge e)))) else {})"
    using b by (auto split: if_splits)
  have un: "(\<Union>x\<in>{x \<in> set (e # es). connected x}. set (the (rec (the (id_edge x))))) =
            (if connected e then set (the (rec (the (id_edge e)))) else {}) \<union>
            (\<Union>x\<in>{x \<in> set es. connected x}. set (the (rec (the (id_edge x)))))"
    by auto
  have "set vs = insert (cur, i, id_edge e) (set below \<union> set rest)" by (simp add: v)
  also have "\<dots> = {(cur, i + j, id_edge ((e # es) ! j)) | j. j < length (e # es)} \<union>
      (\<Union>x\<in>{x \<in> set (e # es). connected x}. set (the (rec (the (id_edge x)))))"
    unfolding own un below ih(1) by blast
  finally have 1: "set vs = {(cur, i + j, id_edge ((e # es) ! j)) | j. j < length (e # es)} \<union>
      (\<Union>x\<in>{x \<in> set (e # es). connected x}. set (the (rec (the (id_edge x)))))" .
  from b ih(2) have 2: "\<forall>x\<in>set (e # es). connected x \<longrightarrow> rec (the (id_edge x)) \<noteq> None"
    by (auto split: if_splits)
  from 1 2 show ?case by blast
qed

lemma succs_of_node:
  assumes "lookup g c = Some node"
  shows "{d. (c, d) \<in> succs g} = {the (id_edge e) | e. e \<in> set (children node) \<and> connected e}"
proof -
  have "connected e \<longleftrightarrow> (\<exists>b. id_edge e = Some b \<and> b \<noteq> [])" for e
    by (cases "id_edge e") (simp_all add: connected_def)
  with assms show ?thesis by (auto simp: succs_def) force
qed

lemma edgesBelow_unfold:
  "edgesBelow g c =
     {(c, i, x) | i x. \<exists>node. lookup g c = Some node \<and> i < length (children node) \<and>
        x = id_edge (children node ! i)} \<union>
     (\<Union>d\<in>{d. (c, d) \<in> succs g}. edgesBelow g d)"
  (is "?L = ?R")
proof
  show "?L \<subseteq> ?R"
  proof
    fix v assume "v \<in> ?L"
    then obtain a i x node where v: "v = (a, i, x)" and p: "(c, a) \<in> (succs g)\<^sup>*"
      and n: "lookup g a = Some node" "i < length (children node)" "x = id_edge (children node ! i)"
      by (auto simp: edgesBelow_def)
    from p show "v \<in> ?R"
    proof (cases rule: converse_rtranclE)
      case base
      with v n show ?thesis by auto
    next
      case (step d)
      with n have "v \<in> edgesBelow g d" unfolding v edgesBelow_def by auto
      with step(1) show ?thesis by blast
    qed
  qed
  show "?R \<subseteq> ?L"
    by (auto simp: edgesBelow_def intro: converse_rtrancl_into_rtrancl)
qed

lemma traversal_set: "traversal n c g = Some vs \<Longrightarrow> set vs = edgesBelow g c"
proof (induction n arbitrary: c vs)
  case 0
  then show ?case by simp
next
  case (Suc n)
  show ?case
  proof (cases "lookup g c")
    case None
    then have "{d. (c, d) \<in> succs g} = {}" by (auto simp: succs_def)
    with None have "edgesBelow g c = {}" by (subst edgesBelow_unfold) simp
    with None Suc.prems show ?thesis by simp
  next
    case (Some node)
    with Suc.prems have w: "walkEdges (\<lambda>c. traversal n c g) c (children node) 0 = Some vs" by simp
    from walkEdges_set[OF w] have
      s: "set vs = {(c, 0 + j, id_edge (children node ! j)) | j. j < length (children node)} \<union>
           (\<Union>e\<in>{e \<in> set (children node). connected e}. set (the (traversal n (the (id_edge e)) g)))"
      and t: "\<forall>e\<in>set (children node). connected e \<longrightarrow> traversal n (the (id_edge e)) g \<noteq> None"
      by simp_all
    have "set (the (traversal n (the (id_edge e)) g)) = edgesBelow g (the (id_edge e))"
      if "e \<in> set (children node)" "connected e" for e
    proof -
      from t that obtain ws where "traversal n (the (id_edge e)) g = Some ws" by auto
      with Suc.IH[OF this] show ?thesis by simp
    qed
    then have "(\<Union>e\<in>{e \<in> set (children node). connected e}.
                  set (the (traversal n (the (id_edge e)) g))) =
               (\<Union>e\<in>{e \<in> set (children node). connected e}. edgesBelow g (the (id_edge e)))"
      by auto
    also have "\<dots> = (\<Union>d\<in>{d. (c, d) \<in> succs g}. edgesBelow g d)"
      unfolding succs_of_node[OF Some] by blast
    finally show ?thesis
      unfolding s by (subst edgesBelow_unfold) (auto simp: Some)
  qed
qed

lemma firstMatch_None_iff: "firstMatch t vs = None \<longleftrightarrow> (\<forall>(p, i, x)\<in>set vs. x \<noteq> Some t)"
proof (induction vs)
  case Nil
  show ?case by simp
next
  case (Cons v vs)
  obtain p i x where v: "v = (p, i, x)" by (cases v)
  show ?case using Cons.IH by (simp add: v firstMatch_Cons)
qed

text \<open>
  On an acyclic node map the depth-first traversal from the starting node is finite and
  visits exactly the edges of the nodes reachable from it. When none of these nodes reads
  as an object that is no node, \<open>findParent\<close> with that much recursion depth or more
  returns, and its answer is the first edge (owner, index) of the traversal whose target
  is the sought id, \<open>null\<close> when no edge of a reachable node targets it.
\<close>

lemma findParent_traversal:
  assumes "acyclic (succs m)"
    and "\<forall>x. (currentId, x) \<in> (succs m)\<^sup>* \<longrightarrow> jsGet m x \<noteq> Foreign"
  shows "\<exists>n vs. traversal n currentId m = Some vs \<and> set vs = edgesBelow m currentId \<and>
           (\<forall>fuel\<ge>n. findParent fuel currentId targetId m = Inr (firstMatch targetId vs)) \<and>
           (firstMatch targetId vs = None \<longleftrightarrow>
              (\<forall>(p, i, x)\<in>edgesBelow m currentId. x \<noteq> Some targetId))"
proof -
  from traversal_total[OF assms(1)] obtain n vs where t: "traversal n currentId m = Some vs"
    by blast
  have "findParent fuel currentId targetId m = Inr (firstMatch targetId vs)" if "n \<le> fuel" for fuel
    by (rule traversal_findParent[OF traversal_mono[OF that t] assms(2)])
  then have f: "\<forall>fuel\<ge>n. findParent fuel currentId targetId m = Inr (firstMatch targetId vs)"
    by blast
  from traversal_set[OF t] have s: "set vs = edgesBelow m currentId" .
  have e: "firstMatch targetId vs = None \<longleftrightarrow>
             (\<forall>(p, i, x)\<in>edgesBelow m currentId. x \<noteq> Some targetId)"
    by (simp add: firstMatch_None_iff s)
  show ?thesis
    by (rule exI[of _ n], rule exI[of _ vs]) (intro conjI t s f e)
qed

lemma succs_chainGraph: "succs chainGraph = {(''node-0'', ''node-1'')}"
  by (auto simp: succs_def chainGraph_def lookup_def rootId_def split: if_splits)

lemma acyclic_chainGraph: "acyclic (succs chainGraph)"
proof -
  have "acyclic ({} :: (string \<times> string) set)" by (simp add: acyclic_def)
  then show ?thesis by (simp add: succs_chainGraph acyclic_insert)
qed

lemma succs_protoEdgeGraph: "succs protoEdgeGraph = {(''node-0'', ''constructor'')}"
  by (auto simp: succs_def protoEdgeGraph_def lookup_def rootId_def split: if_splits)

lemma acyclic_protoEdgeGraph: "acyclic (succs protoEdgeGraph)"
proof -
  have "acyclic ({} :: (string \<times> string) set)" by (simp add: acyclic_def)
  then show ?thesis by (simp add: succs_protoEdgeGraph acyclic_insert)
qed

lemma jsGet_constructor: "jsGet protoEdgeGraph ''constructor'' = Foreign"
  by code_simp

lemma jsGet_protoRoot:
  "jsGet protoEdgeGraph rootId =
     Node \<lparr>id_node = rootId, label_node = ''Start'', type_node = Action,
       children = [\<lparr>id_edge = Some ''constructor'', label_edge = ''Next''\<rparr>]\<rparr>"
  by (simp add: jsGet_def protoEdgeGraph_def)

lemma findParent_protoEdgeGraph:
  "findParent (Suc (Suc fuel)) rootId ''node-5'' protoEdgeGraph = Inl TypeError"
  by (simp add: jsGet_protoRoot jsGet_constructor)

text \<open>
  C9, at an acyclic node map that a saved workflow can hold: the root of \<open>protoEdgeGraph\<close>
  has an edge to the id \<open>constructor\<close> and the map has no node of that name. The
  depth-first traversal visits this one edge and no edge targets \<open>node-5\<close>, so the
  claimed answer is "not found". \<open>findParent\<close> reads \<open>map['constructor']\<close>, which the
  prototype chain answers with a function, passes the test \<open>if (!node)\<close> and throws a
  TypeError on \<open>node.children.length\<close>, at every recursion depth that reaches the edge; so
  does the deletion that calls it.
\<close>

theorem findParent_inherited_name:
  "acyclic (succs protoEdgeGraph) \<and>
   traversal 2 rootId protoEdgeGraph = Some [(rootId, 0, Some ''constructor'')] \<and>
   firstMatch ''node-5'' [(rootId, 0, Some ''constructor'')] = None \<and>
   (\<forall>fuel. findParent (Suc (Suc fuel)) rootId ''node-5'' protoEdgeGraph = Inl TypeError) \<and>
   (\<forall>fuel. deleteNode_next (Suc (Suc fuel)) ''node-5'' protoEdgeGraph = Inl TypeError)"
proof -
  have t: "traversal 2 rootId protoEdgeGraph = Some [(rootId, 0, Some ''constructor'')]"
    by code_simp
  have f: "firstMatch ''node-5'' [(rootId, 0, Some ''constructor'')] = None"
    by code_simp
  have d: "deleteNode_next (Suc (Suc fuel)) ''node-5'' protoEdgeGraph = Inl TypeError" for fuel
    unfolding deleteNode_next_def findParent_protoEdgeGraph by simp
  from acyclic_protoEdgeGraph t f findParent_protoEdgeGraph d show ?thesis by blast
qed

section \<open>Maps, normalised edges and the result of the parent lookup\<close>

lemma lookup_update:
  "lookup (AList.update k v g) x =
     (if x = k then (case v of Node n \<Rightarrow> Some n | _ \<Rightarrow> None) else lookup g x)"
  by (cases v) (simp_all add: lookup_def update_conv')

lemma jsGet_update: "jsGet (AList.update k v g) x = (if x = k then v else jsGet g x)"
  by (simp add: jsGet_def update_conv')

lemma jsGet_delete:
  "jsGet (AList.delete k g) x =
     (if x = k then (if k \<in> set inheritedNames then Foreign else Undefined) else jsGet g x)"
  by (simp add: jsGet_def delete_conv')

lemma lookup_delete:
  "lookup (AList.delete k g) x = (if x = k then None else lookup g x)"
  by (simp add: lookup_def delete_conv')

lemma keys_update: "fst ` set (AList.update k v g) = insert k (fst ` set g)"
  by (induction g) auto

lemma keys_delete: "fst ` set (AList.delete k g) = fst ` set g - {k}"
  by (induction g) auto

lemma ensure_append:
  "\<exists>extra. ensureBranchEdges cs = cs @ extra \<and>
     set extra \<subseteq> {\<lparr>id_edge = None, label_edge = ''True''\<rparr>, \<lparr>id_edge = None, label_edge = ''False''\<rparr>}"
  by (auto simp: ensureBranchEdges_unfold pushMissing_def)

lemma ensure_length: "length cs \<le> length (ensureBranchEdges cs)"
  using ensure_append[of cs] by auto

lemma ensure_nth: "i < length cs \<Longrightarrow> ensureBranchEdges cs ! i = cs ! i"
  using ensure_append[of cs] by (auto simp: nth_append)

lemma ensure_length2: "2 \<le> length (ensureBranchEdges cs)"
proof -
  have t: "hasLabel ''True'' (ensureBranchEdges cs)" and f: "hasLabel ''False'' (ensureBranchEdges cs)"
    by simp_all
  then obtain a b where a: "a \<in> set (ensureBranchEdges cs)" "label_edge a = ''True''"
    and b: "b \<in> set (ensureBranchEdges cs)" "label_edge b = ''False''"
    by (auto simp: hasLabel_def list_ex_iff)
  then have "a \<noteq> b" by auto
  with a b have "card {a, b} \<le> card (set (ensureBranchEdges cs))"
    by (intro card_mono) auto
  also have "\<dots> \<le> length (ensureBranchEdges cs)" by (rule card_length)
  finally show ?thesis using \<open>a \<noteq> b\<close> by simp
qed

lemma scan_Some:
  assumes "scan rec cur t es i = Inr (Some pm)"
  shows "(\<exists>j<length es. id_edge (es ! j) = Some t \<and> pm = \<lparr>parentId = cur, edgeIndex = i + j\<rparr> \<and>
            (\<forall>k<j. id_edge (es ! k) \<noteq> Some t)) \<or>
         (\<exists>e\<in>set es. truthy (id_edge e) \<and> id_edge e \<noteq> Some t \<and>
            rec (the (id_edge e)) = Inr (Some pm))"
  using assms
proof (induction es arbitrary: i)
  case Nil
  then show ?case by simp
next
  case (Cons e es)
  show ?case
  proof (cases "id_edge e = Some t")
    case True
    with Cons.prems have "pm = \<lparr>parentId = cur, edgeIndex = i\<rparr>" by simp
    with True show ?thesis by (intro disjI1 exI[of _ 0]) simp
  next
    case False
    show ?thesis
    proof (cases "truthy (id_edge e) \<and> rec (the (id_edge e)) = Inr (Some pm)")
      case True
      with False show ?thesis by auto
    next
      case nf: False
      with False Cons.prems have "scan rec cur t es (Suc i) = Inr (Some pm)"
        by (auto split: if_splits option.splits sum.splits)
      from Cons.IH[OF this] show ?thesis
      proof
        assume "\<exists>j<length es. id_edge (es ! j) = Some t \<and>
                  pm = \<lparr>parentId = cur, edgeIndex = Suc i + j\<rparr> \<and> (\<forall>k<j. id_edge (es ! k) \<noteq> Some t)"
        then obtain j where j: "j < length es" "id_edge (es ! j) = Some t"
          "pm = \<lparr>parentId = cur, edgeIndex = Suc i + j\<rparr>" "\<forall>k<j. id_edge (es ! k) \<noteq> Some t"
          by blast
        have "\<forall>k<Suc j. id_edge ((e # es) ! k) \<noteq> Some t"
          using False j(4) by (auto simp: nth_Cons split: nat.splits)
        with j show ?thesis by (intro disjI1 exI[of _ "Suc j"]) simp
      next
        assume "\<exists>e\<in>set es. truthy (id_edge e) \<and> id_edge e \<noteq> Some t \<and>
                  rec (the (id_edge e)) = Inr (Some pm)"
        then show ?thesis by auto
      qed
    qed
  qed
qed

lemma findParent_sound:
  assumes "findParent n c t g = Inr (Some pm)"
  shows "\<exists>node. lookup g (parentId pm) = Some node \<and> edgeIndex pm < length (children node) \<and>
           id_edge (children node ! edgeIndex pm) = Some t \<and>
           (\<forall>k<edgeIndex pm. id_edge (children node ! k) \<noteq> Some t) \<and>
           (c, parentId pm) \<in> (avoiding t g)\<^sup>*"
  using assms
proof (induction n arbitrary: c)
  case 0
  then show ?case by simp
next
  case (Suc n)
  from Suc.prems obtain node where l: "lookup g c = Some node"
    and s: "scan (\<lambda>c. findParent n c t g) c t (children node) 0 = Inr (Some pm)"
    by (auto split: entry.splits simp: lookup_jsGet)
  from scan_Some[OF s] show ?case
  proof
    assume "\<exists>j<length (children node). id_edge (children node ! j) = Some t \<and>
              pm = \<lparr>parentId = c, edgeIndex = 0 + j\<rparr> \<and> (\<forall>k<j. id_edge (children node ! k) \<noteq> Some t)"
    with l show ?thesis by auto
  next
    assume "\<exists>e\<in>set (children node). truthy (id_edge e) \<and> id_edge e \<noteq> Some t \<and>
              findParent n (the (id_edge e)) t g = Inr (Some pm)"
    then obtain e where e: "e \<in> set (children node)" "truthy (id_edge e)" "id_edge e \<noteq> Some t"
      and f: "findParent n (the (id_edge e)) t g = Inr (Some pm)" by blast
    from e obtain b where b: "id_edge e = Some b" "b \<noteq> []" "b \<noteq> t"
      by (cases "id_edge e") auto
    with l e have "(c, b) \<in> avoiding t g" by (auto simp: avoiding_def succs_def)
    moreover from Suc.IH[OF f] b obtain node' where
      n': "lookup g (parentId pm) = Some node'" "edgeIndex pm < length (children node')"
        "id_edge (children node' ! edgeIndex pm) = Some t"
        "\<forall>k<edgeIndex pm. id_edge (children node' ! k) \<noteq> Some t"
        "(b, parentId pm) \<in> (avoiding t g)\<^sup>*" by auto
    ultimately have "(c, parentId pm) \<in> (avoiding t g)\<^sup>*" by (meson converse_rtrancl_into_rtrancl)
    with n' show ?thesis by blast
  qed
qed

section \<open>Operations that do not apply\<close>

lemma initialApp_default: "initialApp (loadInitial None) = Inr startApp"
  by (simp add: initialApp_def loadInitial_def cloneNodes_def defaultGraph_def startApp_def
        rootId_def)

lemma addNode_next_noop:
  "jsGet g p = Undefined \<Longrightarrow> addNode_next newId p l t g = Unchanged"
  "lookup g p = Some parent \<Longrightarrow> type_node parent = End \<Longrightarrow> addNode_next newId p l t g = Unchanged"
  by (simp_all add: addNode_next_def jsGet_Node)

lemma deleteNode_noop:
  "deleteNode fuel rootId s = Inr s"
  "findParent fuel rootId t (nodes s) = Inr None \<Longrightarrow> deleteNode fuel t s = Inr s"
  by (simp_all add: deleteNode_def deleteNode_next_def applyChange_def)

lemma addBranchPath_noop:
  "lookup (nodes s) n = None \<Longrightarrow> addBranchPath n s = Inr s"
  "lookup (nodes s) n = Some node \<Longrightarrow> type_node node \<noteq> Branch \<Longrightarrow> addBranchPath n s = Inr s"
  by (auto simp: addBranchPath_def addBranchPath_next_def applyChange_def jsGet_Node jsGet_not_Node
        split: entry.splits)

lemma addNode_noop:
  "jsGet (nodes s) p = Undefined \<Longrightarrow> addNode v p l t s = Inr s"
  "lookup (nodes s) p = Some parent \<Longrightarrow> type_node parent = End \<Longrightarrow> addNode v p l t s = Inr s"
  by (simp_all add: addNode_def addNode_next_noop applyChange_def)

text \<open>
  C3. The operations that cannot apply leave the graph as it is (the four lemmas above;
  an insertion does when its parent id reads as \<open>undefined\<close>), except \<open>updateLabel\<close> with an
  unknown id: it returns a new map in which the unknown id is a key bound to
  \<open>undefined\<close>, and the next recorded change then faults in \<open>cloneNodes\<close>. An insertion
  under an unknown parent id that names a member of \<open>Object.prototype\<close> does not leave the
  graph as it is either: it stores the new node, with no edge to it.
\<close>

theorem updateLabel_unknown_id:
  "updateLabel_next ''ghost'' ''x'' defaultGraph = defaultGraph @ [(''ghost'', Undefined)] \<and>
   updateLabel_next ''ghost'' ''x'' defaultGraph \<noteq> defaultGraph \<and>
   run [UpdateLabel ''ghost'' ''x'', Insert 1 rootId None Action] startApp = Inl TypeError \<and>
   addNode_next ''node-1'' ''constructor'' None Action defaultGraph =
     Changed (defaultGraph @
       [(''node-1'', Node \<lparr>id_node = ''node-1'', label_node = ''Action'', type_node = Action,
           children = []\<rparr>)])"
  by code_simp

section \<open>Insertion under an Action parent\<close>

lemma createNode_simps [simp]:
  "id_node (createNode i t) = i" "type_node (createNode i t) = t"
  "children (createNode i Action) = []" "children (createNode i End) = []"
  "children (createNode i Branch) =
     [\<lparr>id_edge = None, label_edge = ''True''\<rparr>, \<lparr>id_edge = None, label_edge = ''False''\<rparr>]"
  by (simp_all add: createNode_def ensureBranchEdges_unfold pushMissing_def hasLabel_def)

lemma attach_simps [simp]:
  "id_node (attachExistingChild n c) = id_node n"
  "type_node (attachExistingChild n c) = type_node n"
  "label_node (attachExistingChild n c) = label_node n"
  by (simp_all add: attachExistingChild_def Let_def)

lemma attach_children:
  assumes "S \<noteq> []" "kind \<noteq> End"
  shows "children (attachExistingChild (createNode newId kind) (Some S)) \<noteq> [] \<and>
         id_edge (hd (children (attachExistingChild (createNode newId kind) (Some S)))) = Some S"
  using assms
  by (cases kind)
     (simp_all add: attachExistingChild_def Let_def ensureBranchEdges_unfold pushMissing_def
        hasLabel_def)


section \<open>Deletion: the rewired parent\<close>

lemma hasLabel_iff: "hasLabel l xs \<longleftrightarrow> l \<in> set (map label_edge xs)"
  by (auto simp: hasLabel_def list_ex_iff)

lemma labels_update_id:
  "map label_edge (xs[i := (xs ! i)\<lparr>id_edge := x\<rparr>]) = map label_edge xs"
  by (induction xs arbitrary: i) (auto split: nat.splits)

lemma hasLabel_update_id [simp]:
  "hasLabel l (xs[i := (xs ! i)\<lparr>id_edge := x\<rparr>]) = hasLabel l xs"
  by (simp only: hasLabel_iff labels_update_id)

lemma replacements_length [simp]: "length (replacements base adopted) = length adopted"
  by (simp add: replacements_def)

lemma replacements_nth:
  "j < length adopted \<Longrightarrow>
   replacements base adopted ! j =
     \<lparr>id_edge = id_edge (adopted ! j),
      label_edge = (if label_edge (adopted ! j) \<noteq> []
                    then label_edge base @ '' + '' @ label_edge (adopted ! j)
                    else label_edge base @ '' path '' @ showNat (j + 1))\<rparr>"
  by (simp add: replacements_def nth_enumerate_eq)

lemma deleteNode_next_found:
  assumes "findParent fuel rootId t g = Inr (Some rel)"
    and "lookup g (parentId rel) = Some parent" and "lookup g t = Some target"
  shows "deleteNode_next fuel t g =
     Inr (Changed
       (if type_node parent = Action then
          AList.update (parentId rel)
            (Node (parent\<lparr>children :=
               rewireAction parent (edgeIndex rel) (filter connected (children target))\<rparr>))
            (AList.delete t g)
        else if type_node parent = Branch then
          AList.update (parentId rel)
            (Node (parent\<lparr>children :=
               rewireBranch parent (edgeIndex rel) (filter connected (children target))\<rparr>))
            (AList.delete t g)
        else AList.delete t g))"
  using assms by (simp add: deleteNode_next_def Let_def jsGet_Node)

lemma deleteNode_next_ChangedD:
  assumes "deleteNode_next fuel t g = Inr (Changed g')"
  shows "\<exists>rel parent target. findParent fuel rootId t g = Inr (Some rel) \<and>
           lookup g (parentId rel) = Some parent \<and> lookup g t = Some target"
proof -
  from assms obtain rel where f: "findParent fuel rootId t g = Inr (Some rel)"
    by (auto simp: deleteNode_next_def split: sum.splits option.splits)
  from findParent_sound[OF f] obtain parent where p: "lookup g (parentId rel) = Some parent"
    by blast
  from assms f obtain target where "jsGet g t = Node target"
    by (cases "jsGet g t") (auto simp: deleteNode_next_def Let_def jsGet_Node[OF p])
  then have "lookup g t = Some target" by (simp add: lookup_jsGet)
  with f p show ?thesis by blast
qed

lemma rewireBranch_canonical [simp]:
  "hasLabel ''True'' (rewireBranch parent i adopted)"
  "hasLabel ''False'' (rewireBranch parent i adopted)"
  by (simp_all add: rewireBranch_def Let_def)

lemma rewireBranch_many:
  assumes "i < length (children parent)" and "2 \<le> length adopted"
  shows "\<exists>extra. rewireBranch parent i adopted =
           take i (children parent) @ replacements (children parent ! i) adopted @
             drop (Suc i) (children parent) @ extra \<and> set extra \<subseteq> canonicalSlots"
proof -
  let ?cs = "children parent"
  obtain x0 where x0: "ensureBranchEdges ?cs = ?cs @ x0" "set x0 \<subseteq> canonicalSlots"
    using ensure_append[of ?cs] unfolding canonicalSlots_def by blast
  let ?mid = "take i ?cs @ replacements (?cs ! i) adopted @ drop (Suc i) ?cs @ x0"
  obtain x1 where x1: "ensureBranchEdges ?mid = ?mid @ x1" "set x1 \<subseteq> canonicalSlots"
    using ensure_append[of ?mid] unfolding canonicalSlots_def by blast
  from assms(2) have n: "length adopted \<noteq> 0" "length adopted \<noteq> 1" by auto
  have "rewireBranch parent i adopted = ensureBranchEdges ?mid"
    using assms(1) x0(1) n unfolding rewireBranch_def Let_def by (simp add: nth_append)
  with x1 x0(2) show ?thesis by (intro exI[of _ "x0 @ x1"]) simp
qed

text \<open>
  C4. Deleting a node t that has k \<ge> 2 connected edges and whose parent is a Branch
  replaces the parent's slot that pointed at t by k new edges in place: the other slots
  keep their order, the j-th new edge targets the j-th adopted target and is labelled
  "slot + adopted" when the adopted label is non-empty and "slot path j" (counting from 1)
  otherwise; behind them only unconnected canonical edges are appended, and the stored
  edges contain the labels "True" and "False".
\<close>

theorem deleteNode_branch_splice:
  assumes "findParent fuel rootId t g = Inr (Some rel)"
    and "lookup g (parentId rel) = Some parent" and "type_node parent = Branch"
    and "lookup g t = Some target"
    and "adopted = filter connected (children target)" and "2 \<le> length adopted"
    and "i = edgeIndex rel" and "slot = children parent ! i"
  shows "\<exists>g' parent' R extra.
           deleteNode_next fuel t g = Inr (Changed g') \<and>
           lookup g' (parentId rel) = Some parent' \<and>
           i < length (children parent) \<and> id_edge slot = Some t \<and>
           children parent' =
             take i (children parent) @ R @ drop (Suc i) (children parent) @ extra \<and>
           length R = length adopted \<and>
           (\<forall>j<length adopted.
              id_edge (R ! j) = id_edge (adopted ! j) \<and>
              label_edge (R ! j) =
                (if label_edge (adopted ! j) \<noteq> []
                 then label_edge slot @ '' + '' @ label_edge (adopted ! j)
                 else label_edge slot @ '' path '' @ showNat (j + 1))) \<and>
           set extra \<subseteq> canonicalSlots \<and>
           hasLabel ''True'' (children parent') \<and> hasLabel ''False'' (children parent')"
proof -
  from findParent_sound[OF assms(1)] assms(2,7,8)
  have i: "i < length (children parent)" and s: "id_edge slot = Some t" by auto
  let ?new = "rewireBranch parent i adopted"
  let ?g' = "AList.update (parentId rel) (Node (parent\<lparr>children := ?new\<rparr>)) (AList.delete t g)"
  have d: "deleteNode_next fuel t g = Inr (Changed ?g')"
    using deleteNode_next_found[OF assms(1,2,4)] assms(3,5,7) by simp
  have l: "lookup ?g' (parentId rel) = Some (parent\<lparr>children := ?new\<rparr>)"
    by (simp add: lookup_update)
  from rewireBranch_many[OF i assms(6)] assms(8) obtain extra where
    e: "?new = take i (children parent) @ replacements slot adopted @
          drop (Suc i) (children parent) @ extra" "set extra \<subseteq> canonicalSlots" by auto
  have c: "hasLabel ''True'' ?new" "hasLabel ''False'' ?new" by simp_all
  show ?thesis
    apply (rule exI[of _ ?g'])
    apply (rule exI[of _ "parent\<lparr>children := ?new\<rparr>"])
    apply (rule exI[of _ "replacements slot adopted"])
    apply (rule exI[of _ extra])
    using d l i s e c by (simp add: replacements_nth)
qed

section \<open>Deletion under a Branch parent; stored canonical edges\<close>

lemma forkGraph_facts:
  "findParent 3 rootId ''node-2'' forkGraph = Inr (Some \<lparr>parentId = ''node-1'', edgeIndex = 0\<rparr>)"
  "lookup forkGraph ''node-1'' =
     Some \<lparr>id_node = ''node-1'', label_node = ''Branch'', type_node = Branch,
         children = [\<lparr>id_edge = Some ''node-2'', label_edge = ''True''\<rparr>,
                     \<lparr>id_edge = None, label_edge = ''False''\<rparr>]\<rparr>"
  "lookup forkGraph ''node-2'' =
     Some \<lparr>id_node = ''node-2'', label_node = ''Branch'', type_node = Branch,
         children = [\<lparr>id_edge = Some ''node-3'', label_edge = ''True''\<rparr>,
                     \<lparr>id_edge = Some ''node-4'', label_edge = ''''\<rparr>]\<rparr>"
  by code_simp+

theorem deleteNode_branch_splice_witness:
  "findParent 3 rootId ''node-2'' forkGraph = Inr (Some \<lparr>parentId = ''node-1'', edgeIndex = 0\<rparr>) \<and>
   (\<exists>g' parent' R extra.
      deleteNode_next 3 ''node-2'' forkGraph = Inr (Changed g') \<and>
      lookup g' ''node-1'' = Some parent' \<and>
      children parent' = R @ [\<lparr>id_edge = None, label_edge = ''False''\<rparr>] @ extra \<and>
      length R = 2 \<and>
      id_edge (R ! 0) = Some ''node-3'' \<and> label_edge (R ! 0) = ''True + True'' \<and>
      id_edge (R ! 1) = Some ''node-4'' \<and> label_edge (R ! 1) = ''True path 2'' \<and>
      set extra \<subseteq> canonicalSlots \<and>
      hasLabel ''True'' (children parent') \<and> hasLabel ''False'' (children parent'))"
proof -
  have "showNat 2 = ''2''" by code_simp
  then have s2: "showNat (Suc (Suc 0)) = ''2''" by (simp add: numeral_2_eq_2)
  from deleteNode_branch_splice[OF forkGraph_facts(1) _ _ forkGraph_facts(3) refl _ refl refl]
  obtain g' parent' R extra where
    "deleteNode_next 3 ''node-2'' forkGraph = Inr (Changed g')"
    "lookup g' ''node-1'' = Some parent'"
    "children parent' = R @ [\<lparr>id_edge = None, label_edge = ''False''\<rparr>] @ extra"
    "length R = 2"
    "\<forall>j<2. id_edge (R ! j) =
        id_edge ([\<lparr>id_edge = Some ''node-3'', label_edge = ''True''\<rparr>,
                     \<lparr>id_edge = Some ''node-4'', label_edge = ''''\<rparr>] ! j) \<and>
       label_edge (R ! j) =
        (if label_edge ([\<lparr>id_edge = Some ''node-3'', label_edge = ''True''\<rparr>,
                     \<lparr>id_edge = Some ''node-4'', label_edge = ''''\<rparr>] ! j) \<noteq> []
         then ''True'' @ '' + '' @ label_edge ([\<lparr>id_edge = Some ''node-3'', label_edge = ''True''\<rparr>,
                     \<lparr>id_edge = Some ''node-4'', label_edge = ''''\<rparr>] ! j)
         else ''True'' @ '' path '' @ showNat (j + 1))"
    "set extra \<subseteq> canonicalSlots"
    "hasLabel ''True'' (children parent')" "hasLabel ''False'' (children parent')"
    by (auto simp: forkGraph_facts(2) connected_def)
  moreover from this(5) have "id_edge (R ! 0) = Some ''node-3''" "label_edge (R ! 0) = ''True + True''"
    "id_edge (R ! 1) = Some ''node-4''" "label_edge (R ! 1) = ''True path 2''"
    by (auto simp: s2)
  ultimately show ?thesis using forkGraph_facts(1) by blast
qed

lemma showNat_not_canonical:
  "''Path '' @ x \<noteq> ''True''" "''Path '' @ x \<noteq> ''False''"
  by simp_all

text \<open>
  C10. When an insertion or a deletion commits a change whose parent is a Branch, the
  children stored for that parent in the resulting graph contain edges labelled "True"
  and "False": the repair is written into the graph. \<open>addBranchPath\<close> only appends the
  new "Path n" edge: its result has a canonical label exactly when the stored edges had
  it before.
\<close>

theorem branch_repair_persisted:
  "(lookup g p = Some parent \<and> type_node parent = Branch \<and>
      addNode_next newId p l t g = Changed g' \<longrightarrow>
      (\<exists>parent'. lookup g' p = Some parent' \<and>
         hasLabel ''True'' (children parent') \<and> hasLabel ''False'' (children parent'))) \<and>
   (findParent fuel rootId tid g2 = Inr (Some rel) \<and>
      lookup g2 (parentId rel) = Some parent2 \<and> type_node parent2 = Branch \<and>
      deleteNode_next fuel tid g2 = Inr (Changed g2') \<longrightarrow>
      (\<exists>parent'. lookup g2' (parentId rel) = Some parent' \<and>
         hasLabel ''True'' (children parent') \<and> hasLabel ''False'' (children parent'))) \<and>
   (addBranchPath_next n g3 = Changed g3' \<longrightarrow>
      (\<exists>node node'. lookup g3 n = Some node \<and> lookup g3' n = Some node' \<and>
         children node' =
           children node @
             [\<lparr>id_edge = None, label_edge = ''Path '' @ showNat (length (children node) + 1)\<rparr>] \<and>
         hasLabel ''True'' (children node') = hasLabel ''True'' (children node) \<and>
         hasLabel ''False'' (children node') = hasLabel ''False'' (children node)))"
proof (intro conjI impI)
  assume a: "lookup g p = Some parent \<and> type_node parent = Branch \<and>
      addNode_next newId p l t g = Changed g'"
  then show "\<exists>parent'. lookup g' p = Some parent' \<and>
         hasLabel ''True'' (children parent') \<and> hasLabel ''False'' (children parent')"
    by (auto simp: addNode_next_def Let_def lookup_update jsGet_Node)
next
  assume a: "findParent fuel rootId tid g2 = Inr (Some rel) \<and>
      lookup g2 (parentId rel) = Some parent2 \<and> type_node parent2 = Branch \<and>
      deleteNode_next fuel tid g2 = Inr (Changed g2')"
  then obtain target where "lookup g2 tid = Some target"
    using deleteNode_next_ChangedD[of fuel tid g2 g2'] by auto
  with a deleteNode_next_found[of fuel tid g2 rel parent2 target]
  show "\<exists>parent'. lookup g2' (parentId rel) = Some parent' \<and>
         hasLabel ''True'' (children parent') \<and> hasLabel ''False'' (children parent')"
    by (auto simp: lookup_update)
next
  assume a: "addBranchPath_next n g3 = Changed g3'"
  then show "\<exists>node node'. lookup g3 n = Some node \<and> lookup g3' n = Some node' \<and>
         children node' =
           children node @
             [\<lparr>id_edge = None, label_edge = ''Path '' @ showNat (length (children node) + 1)\<rparr>] \<and>
         hasLabel ''True'' (children node') = hasLabel ''True'' (children node) \<and>
         hasLabel ''False'' (children node') = hasLabel ''False'' (children node)"
    by (cases "jsGet g3 n")
       (auto simp: addBranchPath_next_def Let_def lookup_jsGet jsGet_update split: if_splits)
qed

lemma bareBranchGraph_facts:
  "lookup bareBranchGraph ''node-1'' =
     Some \<lparr>id_node = ''node-1'', label_node = ''Branch'', type_node = Branch,
         children = [\<lparr>id_edge = Some ''node-2'', label_edge = ''Left''\<rparr>]\<rparr>"
  "lookup bareBranchGraph ''node-2'' =
     Some \<lparr>id_node = ''node-2'', label_node = ''Action'', type_node = Action, children = []\<rparr>"
  "findParent 3 rootId ''node-2'' bareBranchGraph =
     Inr (Some \<lparr>parentId = ''node-1'', edgeIndex = 0\<rparr>)"
  by code_simp+

theorem branch_repair_persisted_witness:
  "(\<exists>g' parent'.
      addNode_next ''node-3'' ''node-1'' (Some ''Left'') Action bareBranchGraph = Changed g' \<and>
      lookup g' ''node-1'' = Some parent' \<and>
      hasLabel ''True'' (children parent') \<and> hasLabel ''False'' (children parent')) \<and>
   (\<exists>g' parent'.
      deleteNode_next 3 ''node-2'' bareBranchGraph = Inr (Changed g') \<and>
      lookup g' ''node-1'' = Some parent' \<and>
      hasLabel ''True'' (children parent') \<and> hasLabel ''False'' (children parent')) \<and>
   (\<exists>g' node'.
      addBranchPath_next ''node-1'' bareBranchGraph = Changed g' \<and>
      lookup g' ''node-1'' = Some node' \<and>
      \<not> hasLabel ''True'' (children node') \<and> \<not> hasLabel ''False'' (children node'))"
proof -
  note l = bareBranchGraph_facts(1)
  let ?p = "\<lparr>id_node = ''node-1'', label_node = ''Branch'', type_node = Branch,
         children = [\<lparr>id_edge = Some ''node-2'', label_edge = ''Left''\<rparr>]\<rparr>"
  obtain a where a: "addNode_next ''node-3'' ''node-1'' (Some ''Left'') Action bareBranchGraph = Changed a"
    by (simp add: addNode_next_def jsGet_Node[OF l] Let_def)
  obtain d where d: "deleteNode_next 3 ''node-2'' bareBranchGraph = Inr (Changed d)"
    using deleteNode_next_found[of 3 "''node-2''" bareBranchGraph
        "\<lparr>parentId = ''node-1'', edgeIndex = 0\<rparr>" ?p
        "\<lparr>id_node = ''node-2'', label_node = ''Action'', type_node = Action, children = []\<rparr>"]
      bareBranchGraph_facts
    by simp
  obtain b where b: "addBranchPath_next ''node-1'' bareBranchGraph = Changed b"
    by (simp add: addBranchPath_next_def jsGet_Node[OF l] Let_def)
  from branch_repair_persisted[of bareBranchGraph "''node-1''" ?p "''node-3''" "Some ''Left''" Action a
      3 "''node-2''" bareBranchGraph "\<lparr>parentId = ''node-1'', edgeIndex = 0\<rparr>" ?p d "''node-1''" bareBranchGraph b]
    a d b l bareBranchGraph_facts(3)
  show ?thesis by (auto simp: hasLabel_def)
qed

section \<open>Deletion keeps the rest of the graph reachable\<close>

lemma ensure_superset: "set cs \<subseteq> set (ensureBranchEdges cs)"
  using ensure_append[of cs] by auto

lemma nth_in_splice:
  assumes "j < length xs" and "j \<noteq> i"
  shows "xs ! j \<in> set (take i xs @ ys @ drop (Suc i) xs)"
proof (cases "j < i")
  case True
  with assms have "xs ! j = take i xs ! j" "j < length (take i xs)" by simp_all
  then have "xs ! j \<in> set (take i xs)" by (metis nth_mem)
  then show ?thesis by simp
next
  case False
  with assms have j: "Suc i \<le> j" by simp
  with assms have "xs ! j = drop (Suc i) xs ! (j - Suc i)" "j - Suc i < length (drop (Suc i) xs)"
    by simp_all
  then have "xs ! j \<in> set (drop (Suc i) xs)" by (metis nth_mem)
  then show ?thesis by simp
qed

lemma nth_in_update:
  assumes "j < length xs" and "j \<noteq> i"
  shows "xs ! j \<in> set (xs[i := v])"
proof -
  from assms have "xs[i := v] ! j = xs ! j" "j < length (xs[i := v])" by simp_all
  then show ?thesis by (metis nth_mem)
qed

lemma rewireBranch_keeps:
  assumes "i < length (children parent)" and "e \<in> set (children parent)"
    and "id_edge e \<noteq> id_edge (children parent ! i)"
  shows "e \<in> set (rewireBranch parent i adopted)"
proof -
  let ?E = "ensureBranchEdges (children parent)"
  from assms(2) obtain j where j: "j < length (children parent)" "children parent ! j = e"
    by (auto simp: in_set_conv_nth)
  with assms(3) have ji: "j \<noteq> i" by auto
  from j have jE: "j < length ?E" "?E ! j = e"
    using ensure_length[of "children parent"] by (simp_all add: ensure_nth)
  have "e \<in> set (?E[i := v])" for v using nth_in_update[OF jE(1) ji, of v] jE(2) by simp
  moreover have "e \<in> set (take i ?E @ ys @ drop (Suc i) ?E)" for ys
    using nth_in_splice[OF jE(1) ji, of ys] jE(2) by simp
  moreover have "i < length ?E" using assms(1) ensure_length[of "children parent"] by simp
  ultimately show ?thesis
    unfolding rewireBranch_def Let_def using ensure_superset by (auto simp del: set_append)
qed

lemma rewireBranch_adopts:
  assumes "i < length (children parent)" and "e \<in> set adopted"
  shows "\<exists>e'\<in>set (rewireBranch parent i adopted). id_edge e' = id_edge e"
proof -
  let ?E = "ensureBranchEdges (children parent)"
  from assms(1) have iE: "i < length ?E" using ensure_length[of "children parent"] by simp
  from assms(2) obtain j where j: "j < length adopted" "adopted ! j = e"
    by (auto simp: in_set_conv_nth)
  then have n0: "length adopted \<noteq> 0" by auto
  show ?thesis
  proof (cases "length adopted = 1")
    case True
    with j have e: "adopted ! 0 = e" by simp
    let ?v = "(?E ! i)\<lparr>id_edge := id_edge (adopted ! 0)\<rparr>"
    have "?v \<in> set (?E[i := ?v])" using iE by (simp add: set_update_memI)
    then have "?v \<in> set (rewireBranch parent i adopted)"
      unfolding rewireBranch_def Let_def using True iE ensure_superset by auto
    with e show ?thesis by (intro bexI[of _ ?v]) simp_all
  next
    case False
    let ?R = "replacements (?E ! i) adopted"
    from j have "?R ! j \<in> set ?R" by simp
    then have "?R ! j \<in> set (take i ?E @ ?R @ drop (Suc i) ?E)" by simp
    then have "?R ! j \<in> set (rewireBranch parent i adopted)"
      unfolding rewireBranch_def Let_def using False n0 iE ensure_superset
      by (auto simp del: set_append)
    moreover from j have "id_edge (?R ! j) = id_edge e" by (simp add: replacements_nth)
    ultimately show ?thesis by blast
  qed
qed

lemma rewire_keeps_reachable:
  assumes path: "(rootId, p) \<in> (avoiding t g)\<^sup>*" and root: "t \<noteq> rootId"
    and target: "lookup g t = Some target" and parent: "lookup g p = Some parent"
    and A: "\<And>e. e \<in> set (children parent) \<Longrightarrow> id_edge e \<noteq> Some t \<Longrightarrow>
              \<exists>e'\<in>set new. id_edge e' = id_edge e"
    and B: "\<And>e. e \<in> set (children target) \<Longrightarrow> connected e \<Longrightarrow>
              \<exists>e'\<in>set new. id_edge e' = id_edge e"
    and g': "g' = AList.update p (Node (parent\<lparr>children := new\<rparr>)) (AList.delete t g)"
    and x: "reachable g x" "x \<noteq> t"
  shows "reachable g' x"
proof -
  have lk: "lookup g' y = (if y = p then Some (parent\<lparr>children := new\<rparr>)
                           else if y = t then None else lookup g y)" for y
    by (simp add: g' lookup_update lookup_delete)
  have e1: "(a, b) \<in> succs g'" if "(a, b) \<in> succs g" "a \<noteq> t" "b \<noteq> t" for a b
  proof (cases "a = p")
    case True
    from that True parent obtain e where e: "e \<in> set (children parent)" "id_edge e = Some b" "b \<noteq> []"
      by (auto simp: succs_def)
    with A[OF e(1)] that(3) obtain e' where "e' \<in> set new" "id_edge e' = Some b" by auto
    with e(3) True show ?thesis unfolding succs_def by (auto simp: lk)
  next
    case False
    with that show ?thesis unfolding succs_def by (auto simp: lk)
  qed
  have e2: "(p, b) \<in> succs g'" if "(t, b) \<in> succs g" for b
  proof -
    from that target obtain e where e: "e \<in> set (children target)" "id_edge e = Some b" "b \<noteq> []"
      by (auto simp: succs_def)
    then have "connected e" by (simp add: connected_def)
    from B[OF e(1) this] e obtain e' where "e' \<in> set new" "id_edge e' = Some b" by auto
    with e(3) show ?thesis unfolding succs_def by (auto simp: lk)
  qed
  have p1: "(rootId, y) \<in> (succs g')\<^sup>* \<and> y \<noteq> t" if "(rootId, y) \<in> (avoiding t g)\<^sup>*" for y
    using that
  proof (induction rule: rtrancl_induct)
    case base
    from root show ?case by simp
  next
    case (step y z)
    from step.hyps(2) have "(y, z) \<in> succs g" "z \<noteq> t" by (simp_all add: avoiding_def)
    with step.IH e1[of y z] show ?case by (auto intro: rtrancl_into_rtrancl)
  qed
  have p2: "y \<noteq> t \<longrightarrow> (rootId, y) \<in> (succs g')\<^sup>*" if "(rootId, y) \<in> (succs g)\<^sup>*" for y
    using that
  proof (induction rule: rtrancl_induct)
    case base
    show ?case by simp
  next
    case (step y z)
    show ?case
    proof
      assume z: "z \<noteq> t"
      show "(rootId, z) \<in> (succs g')\<^sup>*"
      proof (cases "y = t")
        case True
        with step.hyps(2) have "(p, z) \<in> succs g'" by (intro e2) simp
        with p1[OF path] show ?thesis by (auto intro: rtrancl_into_rtrancl)
      next
        case False
        with step.IH have "(rootId, y) \<in> (succs g')\<^sup>*" by simp
        moreover from e1[OF step.hyps(2) False z] have "(y, z) \<in> succs g'" .
        ultimately show ?thesis by (rule rtrancl_into_rtrancl)
      qed
    qed
  qed
  from x have "(rootId, x) \<in> (succs g')\<^sup>*" using p2[of x] by (simp add: reachable_def)
  moreover from x have "lookup g' x \<noteq> None" by (simp add: reachable_def lk)
  ultimately show ?thesis by (simp add: reachable_def)
qed

text \<open>
  C1 (amended). For a deletable node t (not the root, found from the root) whose parent is
  a Branch, or an Action with its single edge while t has at most one connected edge,
  the deletion removes exactly the key t from the map and leaves every other node but the
  parent as it was; every node other than t that was reachable from the root is still
  reachable, and when every node of the map was reachable, every node of the new map is.
\<close>

theorem deleteNode_keeps_reachable:
  assumes f: "findParent fuel rootId t g = Inr (Some rel)" and root: "t \<noteq> rootId"
    and target: "lookup g t = Some target" and parent: "lookup g (parentId rel) = Some parent"
    and kind: "type_node parent = Branch \<or>
               (type_node parent = Action \<and> length (children parent) \<le> 1 \<and>
                length (filter connected (children target)) \<le> 1)"
  shows "\<exists>g'. deleteNode_next fuel t g = Inr (Changed g') \<and>
           fst ` set g' = fst ` set g - {t} \<and> lookup g' t = None \<and>
           (\<forall>x. x \<noteq> t \<and> x \<noteq> parentId rel \<longrightarrow> lookup g' x = lookup g x) \<and>
           (\<forall>x. x \<noteq> t \<and> reachable g x \<longrightarrow> reachable g' x) \<and>
           ((\<forall>x. lookup g x \<noteq> None \<longrightarrow> reachable g x) \<longrightarrow>
            (\<forall>x. lookup g' x \<noteq> None \<longrightarrow> reachable g' x))"
proof -
  let ?p = "parentId rel" and ?i = "edgeIndex rel"
  let ?adopted = "filter connected (children target)"
  from findParent_sound[OF f] parent
  have i: "?i < length (children parent)" and it: "id_edge (children parent ! ?i) = Some t"
    and path: "(rootId, ?p) \<in> (avoiding t g)\<^sup>*" by auto
  from path root have pt: "?p \<noteq> t"
    by (cases rule: rtranclE) (auto simp: avoiding_def)
  define new where "new = (if type_node parent = Action then rewireAction parent ?i ?adopted
                           else rewireBranch parent ?i ?adopted)"
  define g' where "g' = AList.update ?p (Node (parent\<lparr>children := new\<rparr>)) (AList.delete t g)"
  have d: "deleteNode_next fuel t g = Inr (Changed g')"
    using deleteNode_next_found[OF f parent target] kind by (auto simp: g'_def new_def)
  have lk: "lookup g' y = (if y = ?p then Some (parent\<lparr>children := new\<rparr>)
                           else if y = t then None else lookup g y)" for y
    by (simp add: g'_def lookup_update lookup_delete)
  have A: "\<exists>e'\<in>set new. id_edge e' = id_edge e"
    if "e \<in> set (children parent)" "id_edge e \<noteq> Some t" for e
  proof (cases "type_node parent = Action")
    case True
    with kind have "length (children parent) \<le> 1" by auto
    with i have "children parent = [children parent ! ?i]"
      by (cases "children parent") auto
    with that it show ?thesis by (metis empty_iff empty_set set_ConsD)
  next
    case False
    with that it rewireBranch_keeps[OF i that(1), of ?adopted] show ?thesis
      by (auto simp: new_def)
  qed
  have B: "\<exists>e'\<in>set new. id_edge e' = id_edge e"
    if "e \<in> set (children target)" "connected e" for e
  proof (cases "type_node parent = Action")
    case True
    from that have m: "e \<in> set ?adopted" by simp
    from True kind have "length ?adopted \<le> 1" by auto
    with m have "?adopted = [e]" by (cases ?adopted) auto
    with True show ?thesis by (simp add: new_def rewireAction_def)
  next
    case False
    from that have "e \<in> set ?adopted" by simp
    from rewireBranch_adopts[OF i this] False show ?thesis by (simp add: new_def)
  qed
  have r: "reachable g' x" if "x \<noteq> t" "reachable g x" for x
    by (rule rewire_keeps_reachable[OF path root target parent A B g'_def that(2,1)])
  from parent have "?p \<in> fst ` set g" by (force dest: lookup_in_set)
  with pt have k: "fst ` set g' = fst ` set g - {t}"
    by (auto simp: g'_def keys_update keys_delete)
  have o: "reachable g' x" if "\<forall>x. lookup g x \<noteq> None \<longrightarrow> reachable g x" "lookup g' x \<noteq> None" for x
  proof -
    from that(2) parent pt have "x \<noteq> t" "lookup g x \<noteq> None" by (auto simp: lk split: if_splits)
    with that(1) r show ?thesis by blast
  qed
  from d k lk pt r o show ?thesis by (intro exI[of _ g']) auto
qed

lemma succs_iff:
  "(a, b) \<in> succs g \<longleftrightarrow>
     (case lookup g a of None \<Rightarrow> False
      | Some n \<Rightarrow> b \<noteq> [] \<and> Some b \<in> id_edge ` set (children n))"
  by (auto simp: succs_def image_iff split: option.splits) (metis+)

lemma succsI:
  "lookup g a = Some n \<Longrightarrow> b \<noteq> [] \<Longrightarrow> Some b \<in> id_edge ` set (children n) \<Longrightarrow> (a, b) \<in> succs g"
  by (simp add: succs_iff)

lemma reach_closed:
  assumes "(rootId, x) \<in> (succs g)\<^sup>*" and "rootId \<in> S"
    and "\<And>a b. a \<in> S \<Longrightarrow> (a, b) \<in> succs g \<Longrightarrow> b \<in> S"
  shows "x \<in> S"
  using assms(1) by (induction rule: rtrancl_induct) (auto intro: assms)

lemma afterBranchDeleted_facts:
  "lookup afterBranchDeleted ''node-0'' =
     Some \<lparr>id_node = rootId, label_node = ''Start'', type_node = Action,
         children = [\<lparr>id_edge = Some ''node-2'', label_edge = ''Next''\<rparr>]\<rparr>"
  "lookup afterBranchDeleted ''node-2'' =
     Some \<lparr>id_node = ''node-2'', label_node = ''Action'', type_node = Action, children = []\<rparr>"
  "lookup afterBranchDeleted ''node-3'' =
     Some \<lparr>id_node = ''node-3'', label_node = ''Action'', type_node = Action, children = []\<rparr>"
  by code_simp+

lemma branchBelowRoot_facts:
  "lookup branchBelowRoot ''node-0'' =
     Some \<lparr>id_node = rootId, label_node = ''Start'', type_node = Action,
         children = [\<lparr>id_edge = Some ''node-1'', label_edge = ''Next''\<rparr>]\<rparr>"
  "lookup branchBelowRoot ''node-1'' =
     Some \<lparr>id_node = ''node-1'', label_node = ''Branch'', type_node = Branch,
         children = [\<lparr>id_edge = Some ''node-2'', label_edge = ''True''\<rparr>,
                     \<lparr>id_edge = Some ''node-3'', label_edge = ''False''\<rparr>]\<rparr>"
  "lookup branchBelowRoot ''node-3'' =
     Some \<lparr>id_node = ''node-3'', label_node = ''Action'', type_node = Action, children = []\<rparr>"
  by code_simp+

text \<open>
  C1 as stated fails for an Action parent when the deleted node has two connected edges:
  only the first adopted edge is kept, and \<open>node-3\<close>, reachable before, stays in the
  map with no path from the root.
\<close>

theorem deleteNode_action_parent_orphans:
  "deleteNode_next 3 ''node-1'' branchBelowRoot = Inr (Changed afterBranchDeleted) \<and>
   reachable branchBelowRoot ''node-3'' \<and>
   lookup afterBranchDeleted ''node-3'' \<noteq> None \<and>
   \<not> reachable afterBranchDeleted ''node-3''"
proof -
  have 1: "deleteNode_next 3 ''node-1'' branchBelowRoot = Inr (Changed afterBranchDeleted)"
    by code_simp
  have "(''node-0'', ''node-1'') \<in> succs branchBelowRoot"
    by (rule succsI[OF branchBelowRoot_facts(1)]) simp_all
  moreover have "(''node-1'', ''node-3'') \<in> succs branchBelowRoot"
    by (rule succsI[OF branchBelowRoot_facts(2)]) simp_all
  ultimately have "(rootId, ''node-3'') \<in> (succs branchBelowRoot)\<^sup>*"
    unfolding rootId_def by (blast intro: rtrancl_into_rtrancl)
  then have 2: "reachable branchBelowRoot ''node-3''"
    by (simp add: reachable_def branchBelowRoot_facts(3))
  have 3: "lookup afterBranchDeleted ''node-3'' \<noteq> None"
    by (simp add: afterBranchDeleted_facts(3))
  have 4: "\<not> reachable afterBranchDeleted ''node-3''"
  proof
    assume "reachable afterBranchDeleted ''node-3''"
    then have "(rootId, ''node-3'') \<in> (succs afterBranchDeleted)\<^sup>*" by (simp add: reachable_def)
    then have "''node-3'' \<in> {''node-0'', ''node-2''}"
    proof (rule reach_closed)
      show "rootId \<in> {''node-0'', ''node-2''}" by (simp add: rootId_def)
    next
      fix a b assume "a \<in> {''node-0'', ''node-2''}" "(a, b) \<in> succs afterBranchDeleted"
      then show "b \<in> {''node-0'', ''node-2''}"
        by (auto simp: succs_iff afterBranchDeleted_facts)
    qed
    then show False by simp
  qed
  from 1 2 3 4 show ?thesis by simp
qed

theorem deleteNode_keeps_reachable_witness:
  "findParent 3 rootId ''node-2'' forkGraph = Inr (Some \<lparr>parentId = ''node-1'', edgeIndex = 0\<rparr>) \<and>
   ''node-2'' \<noteq> rootId \<and> reachable forkGraph ''node-4'' \<and>
   (\<exists>g'. deleteNode_next 3 ''node-2'' forkGraph = Inr (Changed g') \<and>
      fst ` set g' = fst ` set forkGraph - {''node-2''} \<and> lookup g' ''node-2'' = None \<and>
      reachable g' ''node-4'')"
proof -
  have r: "''node-2'' \<noteq> rootId" by (simp add: rootId_def)
  have l0: "lookup forkGraph ''node-0'' =
     Some \<lparr>id_node = rootId, label_node = ''Start'', type_node = Action,
         children = [\<lparr>id_edge = Some ''node-1'', label_edge = ''Next''\<rparr>]\<rparr>" by code_simp
  have l4: "lookup forkGraph ''node-4'' \<noteq> None" by code_simp
  have e1: "(''node-0'', ''node-1'') \<in> succs forkGraph"
    by (rule succsI[OF l0]) simp_all
  have e2: "(''node-1'', ''node-2'') \<in> succs forkGraph"
    by (rule succsI[OF forkGraph_facts(2)]) simp_all
  have e3: "(''node-2'', ''node-4'') \<in> succs forkGraph"
    by (rule succsI[OF forkGraph_facts(3)]) simp_all
  have "(rootId, ''node-4'') \<in> (succs forkGraph)\<^sup>*"
    unfolding rootId_def
    by (rule rtrancl_into_rtrancl[OF rtrancl_into_rtrancl[OF r_into_rtrancl[OF e1] e2] e3])
  with l4 have 2: "reachable forkGraph ''node-4''" by (simp add: reachable_def)
  from deleteNode_keeps_reachable[OF forkGraph_facts(1) r forkGraph_facts(3), of
      "\<lparr>id_node = ''node-1'', label_node = ''Branch'', type_node = Branch,
         children = [\<lparr>id_edge = Some ''node-2'', label_edge = ''True''\<rparr>,
                     \<lparr>id_edge = None, label_edge = ''False''\<rparr>]\<rparr>"]
    forkGraph_facts(2)
  obtain g' where g': "deleteNode_next 3 ''node-2'' forkGraph = Inr (Changed g')"
      "fst ` set g' = fst ` set forkGraph - {''node-2''}" "lookup g' ''node-2'' = None"
      "\<forall>x. x \<noteq> ''node-2'' \<and> reachable forkGraph x \<longrightarrow> reachable g' x"
    by auto
  from g'(4) 2 have "reachable g' ''node-4''" by simp
  with g'(1-3) forkGraph_facts(1) r 2 show ?thesis by blast
qed

section \<open>Insertion followed by deletion\<close>

lemma findIndex_Some: "findIndex P xs = Some i \<Longrightarrow> i < length xs \<and> P (xs ! i)"
  by (induction xs arbitrary: i) (auto split: if_splits)

lemma targetIndex_less: "edges \<noteq> [] \<Longrightarrow> targetIndex l edges < length edges"
  by (auto simp: targetIndex_def split: option.splits dest: findIndex_Some)

lemma ensure_nonempty [simp]: "ensureBranchEdges cs \<noteq> []"
  using ensure_length2[of cs] by auto

lemma addNode_next_Action:
  assumes "lookup g p = Some parent" and "type_node parent = Action"
  shows "addNode_next newId p l kind g =
     Changed (AList.update p
        (Node (parent\<lparr>children := [\<lparr>id_edge = Some newId, label_edge = ''Next''\<rparr>]\<rparr>))
        (AList.update newId
           (Node (attachExistingChild (createNode newId kind)
              (case children parent of [] \<Rightarrow> None | e # _ \<Rightarrow> id_edge e))) g))"
  using assms by (simp add: addNode_next_def jsGet_Node)

lemma addNode_next_Branch:
  assumes "lookup g p = Some parent" and "type_node parent = Branch"
  shows "addNode_next newId p l kind g =
     Changed (AList.update p
        (Node (parent\<lparr>children :=
           (ensureBranchEdges (children parent))
             [targetIndex l (ensureBranchEdges (children parent)) :=
                (ensureBranchEdges (children parent) ! targetIndex l (ensureBranchEdges (children parent)))
                   \<lparr>id_edge := Some newId\<rparr>]\<rparr>))
        (AList.update newId
           (Node (attachExistingChild (createNode newId kind)
              (id_edge (ensureBranchEdges (children parent) !
                 targetIndex l (ensureBranchEdges (children parent)))))) g))"
  using assms by (simp add: addNode_next_def Let_def jsGet_Node)

lemma attach_adopted:
  "map id_edge (filter connected (children (attachExistingChild (createNode newId kind) c))) =
     (if truthy c \<and> kind \<noteq> End then [c] else [])"
  by (cases kind)
     (auto simp: attachExistingChild_def Let_def connected_def ensureBranchEdges_unfold
        pushMissing_def hasLabel_def)

lemma attach_ids:
  "e \<in> set (children (attachExistingChild (createNode newId kind) c)) \<Longrightarrow>
   id_edge e = c \<or> id_edge e = None"
  by (cases kind)
     (auto simp: attachExistingChild_def Let_def ensureBranchEdges_unfold
        pushMissing_def hasLabel_def split: if_splits)

lemma lookup_fresh: "k \<notin> fst ` set g \<Longrightarrow> lookup g k = None"
  by (simp add: lookup_def map_of_eq_None_iff[THEN iffD2])

lemma rewireAction_one:
  "rewireAction \<lparr>id_node = i, label_node = l, type_node = t,
       children = [\<lparr>id_edge = x, label_edge = ''Next''\<rparr>]\<rparr> 0 [a] =
     [\<lparr>id_edge = id_edge a, label_edge = ''Next''\<rparr>]"
  by (simp add: rewireAction_def)

lemma rewireBranch_one_restores:
  assumes j: "j < length E" and E: "ensureBranchEdges E = E"
    and a: "id_edge a = id_edge (E ! j)"
    and cs: "children parent1 = E[j := (E ! j)\<lparr>id_edge := x\<rparr>]"
  shows "rewireBranch parent1 j [a] = E"
proof -
  let ?E1 = "E[j := (E ! j)\<lparr>id_edge := x\<rparr>]"
  have "hasLabel ''True'' E" "hasLabel ''False'' E"
    using ensure_hasTrue[of E] ensure_hasFalse[of E] E by simp_all
  then have "hasLabel ''True'' ?E1" "hasLabel ''False'' ?E1" by simp_all
  then have e1: "ensureBranchEdges ?E1 = ?E1" by (rule ensure_fixed)
  have j1: "j < length ?E1" using j by simp
  have "rewireBranch parent1 j [a] = ensureBranchEdges (?E1[j := (?E1 ! j)\<lparr>id_edge := id_edge a\<rparr>])"
    unfolding rewireBranch_def Let_def cs e1 using j1 by simp
  also have "?E1[j := (?E1 ! j)\<lparr>id_edge := id_edge a\<rparr>] = E"
    using j a by (simp add: list_update_same_conv)
  finally show ?thesis using E by simp
qed

lemma one_adopted:
  assumes "length (filter connected (children (attachExistingChild (createNode newId kind) c))) = 1"
  shows "truthy c \<and> kind \<noteq> End \<and>
         (\<exists>a. filter connected (children (attachExistingChild (createNode newId kind) c)) = [a] \<and>
              id_edge a = c)"
proof -
  let ?ad = "filter connected (children (attachExistingChild (createNode newId kind) c))"
  from assms obtain a where a: "?ad = [a]" by (cases ?ad) auto
  have m: "map id_edge ?ad = (if truthy c \<and> kind \<noteq> End then [c] else [])"
    by (rule attach_adopted)
  with a have "truthy c \<and> kind \<noteq> End" by (auto split: if_splits)
  moreover with m a have "id_edge a = c" by simp
  ultimately show ?thesis using a by blast
qed

lemma unreferenced_edge:
  assumes "\<And>a b. (a, b) \<in> succs g \<Longrightarrow> b \<noteq> newId" and "newId \<noteq> []"
    and "lookup g q = Some node" and "e \<in> set (children node)"
  shows "id_edge e \<noteq> Some newId"
proof
  assume "id_edge e = Some newId"
  with assms(2-4) have "(q, newId) \<in> succs g" by (auto simp: succs_def)
  with assms(1) show False by blast
qed

lemma ensure_members:
  "e \<in> set (ensureBranchEdges cs) \<Longrightarrow> e \<in> set cs \<or> id_edge e = None"
  using ensure_append[of cs] by auto

lemma inserted_parent_found:
  assumes unref: "\<And>a b. (a, b) \<in> succs g \<Longrightarrow> b \<noteq> newId" and ne: "newId \<noteq> []"
    and g1: "g1 = AList.update p (Node parent1)
                    (AList.update newId (Node (attachExistingChild (createNode newId kind) c)) g)"
    and pn: "p \<noteq> newId" and c: "c \<noteq> Some newId"
    and found: "findParent fuel rootId newId g1 = Inr (Some rel)"
  shows "parentId rel = p \<and> edgeIndex rel < length (children parent1) \<and>
         id_edge (children parent1 ! edgeIndex rel) = Some newId \<and>
         (\<forall>k<edgeIndex rel. id_edge (children parent1 ! k) \<noteq> Some newId)"
proof -
  let ?n0 = "attachExistingChild (createNode newId kind) c"
  have lk: "lookup g1 y = (if y = p then Some parent1 else if y = newId then Some ?n0
                           else lookup g y)" for y
    by (simp add: g1 lookup_update)
  from findParent_sound[OF found] obtain node where
    node: "lookup g1 (parentId rel) = Some node" "edgeIndex rel < length (children node)"
      "id_edge (children node ! edgeIndex rel) = Some newId"
      "\<forall>k<edgeIndex rel. id_edge (children node ! k) \<noteq> Some newId" by blast
  from node(2) have mem: "children node ! edgeIndex rel \<in> set (children node)" by simp
  have "parentId rel = p"
  proof (rule ccontr)
    assume np: "parentId rel \<noteq> p"
    show False
    proof (cases "parentId rel = newId")
      case True
      with node(1) pn have "node = ?n0" by (simp add: lk)
      with mem attach_ids[of "children node ! edgeIndex rel" newId kind c] node(3) c
      show False by auto
    next
      case False
      with np node(1) have "lookup g (parentId rel) = Some node" by (simp add: lk)
      from unreferenced_edge[OF unref ne this mem] node(3) show False by simp
    qed
  qed
  with node show ?thesis by (simp add: lk)
qed

lemma insert_then_delete_found:
  assumes parent: "lookup g p = Some parent"
    and fresh: "newId \<notin> fst ` set g" and ne: "newId \<noteq> []"
    and unreferenced: "\<forall>a b. (a, b) \<in> succs g \<longrightarrow> b \<noteq> newId"
    and single: "type_node parent = Action \<longrightarrow> length (children parent) \<le> 1"
    and ins: "addNode_next newId p l kind g = Changed g1"
    and n: "lookup g1 newId = Some n" and one: "length (filter connected (children n)) = 1"
    and found: "findParent fuel rootId newId g1 = Inr (Some rel)"
  shows "\<exists>g2 parent2.
           deleteNode_next fuel newId g1 = Inr (Changed g2) \<and>
           lookup g2 p = Some parent2 \<and>
           map id_edge (take (length (children parent)) (children parent2)) =
             map id_edge (children parent) \<and>
           (\<forall>e\<in>set (drop (length (children parent)) (children parent2)). id_edge e = None) \<and>
           (\<forall>x. x \<noteq> p \<longrightarrow> lookup g2 x = lookup g x)"
proof -
  from unreferenced have unref: "\<And>a b. (a, b) \<in> succs g \<Longrightarrow> b \<noteq> newId" by blast
  from parent have "p \<in> fst ` set g" by (force dest: lookup_in_set)
  with fresh have pn: "p \<noteq> newId" by auto
  from fresh have ln: "lookup g newId = None" by (rule lookup_fresh)
  from ins parent have nend: "type_node parent \<noteq> End" by (auto simp: addNode_next_def jsGet_Node)
  show ?thesis
  proof (cases "type_node parent = Action")
    case True
    define c where "c = (case children parent of [] \<Rightarrow> None | e # _ \<Rightarrow> id_edge e)"
    let ?n0 = "attachExistingChild (createNode newId kind) c"
    let ?p1 = "parent\<lparr>children := [\<lparr>id_edge = Some newId, label_edge = ''Next''\<rparr>]\<rparr>"
    have g1: "g1 = AList.update p (Node ?p1) (AList.update newId (Node ?n0) g)"
      using addNode_next_Action[OF parent True, of newId l kind] ins by (simp add: c_def)
    have lk: "lookup g1 y = (if y = p then Some ?p1 else if y = newId then Some ?n0
                             else lookup g y)" for y
      by (simp add: g1 lookup_update)
    from n pn have n0: "n = ?n0" by (simp add: lk)
    from one_adopted[of newId kind c] one n0 obtain a where
      tc: "truthy c" and a: "filter connected (children ?n0) = [a]" "id_edge a = c" by auto
    from tc single True obtain e0 where cs: "children parent = [e0]" "id_edge e0 = c"
      by (cases "children parent") (auto simp: c_def)
    from tc obtain S where S: "c = Some S" "S \<noteq> []" by (cases c) auto
    with cs parent have "(p, S) \<in> succs g" by (auto simp: succs_def)
    with unref S have cn: "c \<noteq> Some newId" by auto
    from inserted_parent_found[OF unref ne g1 pn cn found]
    have rel: "parentId rel = p" "edgeIndex rel = 0" by auto
    have lp: "lookup g1 (parentId rel) = Some ?p1" by (simp add: rel lk)
    have lt: "lookup g1 newId = Some ?n0" using pn by (simp add: lk)
    let ?p2 = "parent\<lparr>children := [\<lparr>id_edge = c, label_edge = ''Next''\<rparr>]\<rparr>"
    let ?g2 = "AList.update p (Node ?p2) (AList.delete newId g1)"
    have d: "deleteNode_next fuel newId g1 = Inr (Changed ?g2)"
      using deleteNode_next_found[OF found lp lt] True
      by (simp add: rel a rewireAction_def)
    have l2: "lookup ?g2 y = (if y = p then Some ?p2 else lookup g y)" for y
      using ln by (simp add: lookup_update lookup_delete lk)
    have A1: "lookup ?g2 p = Some ?p2" and A2: "\<forall>x. x \<noteq> p \<longrightarrow> lookup ?g2 x = lookup g x"
      by (simp_all add: l2)
    have A3: "map id_edge (take (length (children parent)) (children ?p2)) =
                map id_edge (children parent)"
      and A4: "\<forall>e\<in>set (drop (length (children parent)) (children ?p2)). id_edge e = None"
      by (simp_all add: cs)
    from d A1 A2 A3 A4 show ?thesis by blast
  next
    case False
    with nend have br: "type_node parent = Branch" by (cases "type_node parent") auto
    define E where "E = ensureBranchEdges (children parent)"
    define j where "j = targetIndex l E"
    define c where "c = id_edge (E ! j)"
    let ?n0 = "attachExistingChild (createNode newId kind) c"
    let ?p1 = "parent\<lparr>children := E[j := (E ! j)\<lparr>id_edge := Some newId\<rparr>]\<rparr>"
    have jE: "j < length E" unfolding j_def E_def by (rule targetIndex_less) simp
    have g1: "g1 = AList.update p (Node ?p1) (AList.update newId (Node ?n0) g)"
      using addNode_next_Branch[OF parent br, of newId l kind] ins
      by (simp add: c_def j_def E_def)
    have lk: "lookup g1 y = (if y = p then Some ?p1 else if y = newId then Some ?n0
                             else lookup g y)" for y
      by (simp add: g1 lookup_update)
    from n pn have n0: "n = ?n0" by (simp add: lk)
    from one_adopted[of newId kind c] one n0 obtain a where
      tc: "truthy c" and a: "filter connected (children ?n0) = [a]" "id_edge a = c" by auto
    have Eid: "id_edge e \<noteq> Some newId" if "e \<in> set E" for e
    proof -
      from that ensure_members[of e "children parent"]
      have "e \<in> set (children parent) \<or> id_edge e = None" by (simp add: E_def)
      then show ?thesis using unreferenced_edge[OF unref ne parent] by auto
    qed
    from jE have "E ! j \<in> set E" by simp
    from Eid[OF this] have cn: "c \<noteq> Some newId" by (simp add: c_def)
    from inserted_parent_found[OF unref ne g1 pn cn found]
    have rel: "parentId rel = p" and ri: "edgeIndex rel < length E"
      and rid: "id_edge ((E[j := (E ! j)\<lparr>id_edge := Some newId\<rparr>]) ! edgeIndex rel) = Some newId"
      by auto
    have rj: "edgeIndex rel = j"
    proof (rule ccontr)
      assume "edgeIndex rel \<noteq> j"
      with rid ri have "id_edge (E ! edgeIndex rel) = Some newId" by simp
      moreover from ri have "E ! edgeIndex rel \<in> set E" by simp
      ultimately show False using Eid by blast
    qed
    have lp: "lookup g1 (parentId rel) = Some ?p1" by (simp add: rel lk)
    have lt: "lookup g1 newId = Some ?n0" using pn by (simp add: lk)
    have EE: "ensureBranchEdges E = E" unfolding E_def by (rule ensure_fixed) simp_all
    have rw: "rewireBranch ?p1 j [a] = E"
      by (rule rewireBranch_one_restores[OF jE EE]) (simp_all add: a c_def)
    let ?p2 = "parent\<lparr>children := E\<rparr>"
    let ?g2 = "AList.update p (Node ?p2) (AList.delete newId g1)"
    have d: "deleteNode_next fuel newId g1 = Inr (Changed ?g2)"
      using deleteNode_next_found[OF found lp lt] br
      by (simp add: rel rj a rw)
    have l2: "lookup ?g2 y = (if y = p then Some ?p2 else lookup g y)" for y
      using ln by (simp add: lookup_update lookup_delete lk)
    from ensure_append[of "children parent"] obtain extra where
      e0: "ensureBranchEdges (children parent) = children parent @ extra"
        "set extra \<subseteq> {\<lparr>id_edge = None, label_edge = ''True''\<rparr>,
                      \<lparr>id_edge = None, label_edge = ''False''\<rparr>}" by blast
    then have ex: "E = children parent @ extra" "\<forall>e\<in>set extra. id_edge e = None"
      by (auto simp: E_def)
    have A1: "lookup ?g2 p = Some ?p2" and A2: "\<forall>x. x \<noteq> p \<longrightarrow> lookup ?g2 x = lookup g x"
      by (simp_all add: l2)
    have A3: "map id_edge (take (length (children parent)) (children ?p2)) =
                map id_edge (children parent)"
      and A4: "\<forall>e\<in>set (drop (length (children parent)) (children ?p2)). id_edge e = None"
      using ex by simp_all
    from d A1 A2 A3 A4 show ?thesis by blast
  qed
qed


section \<open>Snapshots\<close>

lemma set_update_cases:
  "(k', v') \<in> set (AList.update k v al) \<Longrightarrow> (k', v') = (k, v) \<or> (k', v') \<in> set al"
  by (induction al) (auto split: if_splits)

lemma set_delete_subset: "set (AList.delete k al) \<subseteq> set al"
  by (induction al) auto

lemma update_fresh: "k \<notin> fst ` set al \<Longrightarrow> AList.update k v al = al @ [(k, v)]"
  by (induction al) auto

lemma clean_update:
  assumes "clean acc" and "id_node n \<noteq> ''__proto__''"
  shows "clean (AList.update (id_node n) (Node n) acc)"
  using assms unfolding clean_def
  by (auto simp: distinct_update keys_update dest!: set_update_cases)

lemma cloneInto_clean: "clean acc \<Longrightarrow> cloneInto acc vs = Inr r \<Longrightarrow> clean r"
proof (induction vs arbitrary: acc)
  case Nil
  then show ?case by simp
next
  case (Cons v vs)
  then show ?case by (cases v) (auto intro: clean_update split: if_splits)
qed

lemma cloneNodes_clean: "cloneNodes g = Inr r \<Longrightarrow> clean r"
  unfolding cloneNodes_def by (rule cloneInto_clean[of "[]"]) (simp_all add: clean_def)

lemma cloneInto_append:
  "clean (acc @ g) \<Longrightarrow> cloneInto acc (map snd g) = Inr (acc @ g)"
proof (induction g arbitrary: acc)
  case Nil
  then show ?case by simp
next
  case (Cons kv g)
  obtain k v where kv: "kv = (k, v)" by (cases kv)
  from Cons.prems kv obtain n where n: "v = Node n" "id_node n = k"
    by (auto simp: clean_def)
  from Cons.prems kv have "k \<notin> fst ` set acc" and np: "k \<noteq> ''__proto__''"
    by (auto simp: clean_def)
  then have u: "AList.update k (Node n) acc = acc @ [(k, Node n)]" by (simp add: update_fresh)
  from Cons.prems kv n have "clean ((acc @ [(k, Node n)]) @ g)" by simp
  from Cons.IH[OF this] show ?case by (simp add: kv n u np)
qed

lemma cloneNodes_id: "clean g \<Longrightarrow> cloneNodes g = Inr g"
  unfolding cloneNodes_def using cloneInto_append[of "[]" g] by simp

lemma cloneNodes_all_nodes:
  "cloneInto acc vs = Inr r \<Longrightarrow> \<forall>v\<in>set vs. \<exists>n. v = Node n \<and> id_node n \<noteq> ''__proto__''"
  by (induction acc vs rule: cloneInto.induct) (auto split: if_splits)

text \<open>The snapshot of a map that stores every node under its own id is the map itself,
  by value.\<close>

lemma keyed_clone:
  assumes "keyed g" and "cloneNodes g = Inr r"
  shows "r = g"
proof -
  from assms(2) have a: "\<forall>v\<in>set (map snd g). \<exists>n. v = Node n \<and> id_node n \<noteq> ''__proto__''"
    unfolding cloneNodes_def by (rule cloneNodes_all_nodes)
  have n: "\<exists>n. v = Node n \<and> id_node n = k \<and> k \<noteq> ''__proto__''" if "(k, v) \<in> set g" for k v
  proof -
    from that have "v \<in> set (map snd g)" by force
    with a obtain n where "v = Node n" "id_node n \<noteq> ''__proto__''" by blast
    moreover from assms(1) that \<open>v = Node n\<close> have "id_node n = k" by (auto simp: keyed_def)
    ultimately show ?thesis by simp
  qed
  then have "''__proto__'' \<notin> fst ` set g" by force
  with assms(1) n have "clean g"
    unfolding keyed_def clean_def by blast
  from cloneNodes_id[OF this] assms(2) show ?thesis by simp
qed

section \<open>Nodes stored under their own id\<close>

lemma keyed_lookup: "keyed g \<Longrightarrow> lookup g k = Some n \<Longrightarrow> id_node n = k"
  by (auto simp: keyed_def dest!: lookup_in_set)

lemma keyed_update_Some: "keyed g \<Longrightarrow> id_node n = k \<Longrightarrow> keyed (AList.update k (Node n) g)"
  unfolding keyed_def by (auto simp: distinct_update dest!: set_update_cases)

lemma keyed_update_other: "keyed g \<Longrightarrow> \<forall>n. v \<noteq> Node n \<Longrightarrow> keyed (AList.update k v g)"
  unfolding keyed_def by (auto simp: distinct_update dest!: set_update_cases)

lemma keyed_delete: "keyed g \<Longrightarrow> keyed (AList.delete k g)"
  unfolding keyed_def using set_delete_subset[of k g] by (auto simp: distinct_delete) blast

lemma clean_keyed: "clean g \<Longrightarrow> keyed g"
  by (auto simp: clean_def keyed_def)

lemma addNode_next_shape:
  assumes "addNode_next newId p l t g = Changed g'"
  shows "g' = AList.update newId (Node (createNode newId t)) g \<or>
         (\<exists>parent cs c. lookup g p = Some parent \<and>
            g' = AList.update p (Node (parent\<lparr>children := cs\<rparr>))
                   (AList.update newId (Node (attachExistingChild (createNode newId t) c)) g))"
proof (cases "jsGet g p")
  case (Node parent)
  then have parent: "lookup g p = Some parent" by (simp add: lookup_jsGet)
  from assms Node have nend: "type_node parent \<noteq> End" by (auto simp: addNode_next_def)
  show ?thesis
  proof (cases "type_node parent = Action")
    case True
    from assms addNode_next_Action[OF parent True, of newId l t] parent show ?thesis by auto
  next
    case False
    with nend have br: "type_node parent = Branch" by (cases "type_node parent") auto
    from assms addNode_next_Branch[OF parent br, of newId l t] parent show ?thesis by auto
  qed
next
  case Undefined
  with assms show ?thesis by (simp add: addNode_next_def)
next
  case Foreign
  with assms show ?thesis by (simp add: addNode_next_def)
qed

lemma addNode_next_keyed:
  assumes "keyed g" and "addNode_next newId p l t g = Changed g'"
  shows "keyed g'"
  using addNode_next_shape[OF assms(2)]
proof (elim disjE exE conjE)
  assume "g' = AList.update newId (Node (createNode newId t)) g"
  with assms(1) show ?thesis by (simp add: keyed_update_Some)
next
  fix parent cs c
  assume parent: "lookup g p = Some parent"
    and g': "g' = AList.update p (Node (parent\<lparr>children := cs\<rparr>))
      (AList.update newId (Node (attachExistingChild (createNode newId t) c)) g)"
  from keyed_lookup[OF assms(1) parent] have "id_node parent = p" .
  with assms(1) show ?thesis unfolding g' by (auto intro!: keyed_update_Some)
qed

lemma deleteNode_next_shape:
  assumes "deleteNode_next fuel t g = Inr (Changed g')"
  shows "\<exists>q parent. lookup g q = Some parent \<and>
           ((\<exists>cs. g' = AList.update q (Node (parent\<lparr>children := cs\<rparr>)) (AList.delete t g)) \<or>
            g' = AList.delete t g)"
proof -
  from deleteNode_next_ChangedD[OF assms] obtain rel parent target where
    f: "findParent fuel rootId t g = Inr (Some rel)" and parent: "lookup g (parentId rel) = Some parent"
    and target: "lookup g t = Some target" by blast
  from deleteNode_next_found[OF f parent target] assms
  have "(\<exists>cs. g' = AList.update (parentId rel) (Node (parent\<lparr>children := cs\<rparr>)) (AList.delete t g)) \<or>
        g' = AList.delete t g"
    by (auto split: if_splits)
  with parent show ?thesis by blast
qed

lemma deleteNode_next_keyed:
  assumes "keyed g" and "deleteNode_next fuel t g = Inr (Changed g')"
  shows "keyed g'"
proof -
  from deleteNode_next_shape[OF assms(2)] obtain q parent where
    parent: "lookup g q = Some parent"
    and g': "(\<exists>cs. g' = AList.update q (Node (parent\<lparr>children := cs\<rparr>)) (AList.delete t g)) \<or>
             g' = AList.delete t g" by blast
  from keyed_lookup[OF assms(1) parent] have "id_node parent = q" .
  with g' assms(1) show ?thesis by (auto intro!: keyed_update_Some keyed_delete)
qed

lemma updateLabel_next_keyed:
  assumes "keyed g"
  shows "keyed (updateLabel_next i l g)"
proof (cases "jsGet g i")
  case (Node n)
  then have "lookup g i = Some n" by (simp add: lookup_jsGet)
  from keyed_lookup[OF assms this] have "id_node n = i" .
  with Node assms show ?thesis by (simp add: updateLabel_next_def keyed_update_Some)
next
  case Undefined
  with assms show ?thesis by (simp add: updateLabel_next_def keyed_update_other)
next
  case Foreign
  with assms show ?thesis by (simp add: updateLabel_next_def keyed_update_other)
qed

lemma addBranchPath_next_shape:
  assumes "addBranchPath_next n g = Changed g'"
  shows "\<exists>node cs. lookup g n = Some node \<and> type_node node = Branch \<and>
           g' = AList.update n (Node (node\<lparr>children := cs\<rparr>)) g"
  using assms
  by (cases "jsGet g n")
     (auto simp: addBranchPath_next_def Let_def lookup_jsGet split: if_splits)

lemma addBranchPath_next_keyed:
  assumes "keyed g" and "addBranchPath_next n g = Changed g'"
  shows "keyed g'"
proof -
  from addBranchPath_next_shape[OF assms(2)] obtain node cs where
    node: "lookup g n = Some node"
    and g': "g' = AList.update n (Node (node\<lparr>children := cs\<rparr>)) g" by blast
  from keyed_lookup[OF assms(1) node] have "id_node node = n" .
  with assms(1) show ?thesis unfolding g' by (simp add: keyed_update_Some)
qed

section \<open>History\<close>

lemma clean_defaultGraph: "clean defaultGraph"
  by (simp add: clean_def defaultGraph_def rootId_def)

lemma historyOk_start: "historyOk startApp"
  by (simp add: historyOk_def startApp_def clean_defaultGraph)

lemma applyChange_cases:
  assumes "applyChange updater True s = Inr s'"
  shows "s' = s \<or>
         (\<exists>next snapshot. updater (nodes s) = Inr (Changed next) \<and> cloneNodes next = Inr snapshot \<and>
            s' = s\<lparr>nodes := next,
                   history := take (historyIndex s + 1) (history s) @ [snapshot],
                   historyIndex := historyIndex s + 1\<rparr>)"
  using assms
  by (auto simp: applyChange_def split: sum.splits change.splits)

lemma trackable_cases:
  assumes "trackable x" and "exec x s = Inr s'"
  shows "s' = s \<or>
         (\<exists>next snapshot. cloneNodes next = Inr snapshot \<and>
            s' = s\<lparr>nodes := next,
                   history := take (historyIndex s + 1) (history s) @ [snapshot],
                   historyIndex := historyIndex s + 1\<rparr>)"
proof (cases x)
  case (Insert v p l t)
  with assms(2) applyChange_cases[of _ s s'] show ?thesis by (auto simp: addNode_def)
next
  case (Delete fuel t)
  with assms(2) applyChange_cases[of _ s s'] show ?thesis
    by (auto simp: deleteNode_def split: if_splits)
next
  case (AddBranchPath n)
  with assms(2) applyChange_cases[of _ s s'] show ?thesis by (auto simp: addBranchPath_def)
qed (use assms(1) in simp_all)

lemma commit_historyOk:
  assumes "historyOk s" and "cloneNodes next = Inr snapshot"
  shows "historyOk (s\<lparr>nodes := next,
                      history := take (historyIndex s + 1) (history s) @ [snapshot],
                      historyIndex := historyIndex s + 1\<rparr>)"
proof -
  from assms(2) have "clean snapshot" by (rule cloneNodes_clean)
  with assms(1) show ?thesis
    by (auto simp: historyOk_def nth_append dest: in_set_takeD)
qed

lemma undo_historyOk:
  assumes "historyOk s"
  shows "undo s =
     Inr (if historyIndex s = 0 then s
          else s\<lparr>historyIndex := historyIndex s - 1, nodes := history s ! (historyIndex s - 1)\<rparr>)"
proof (cases "historyIndex s = 0")
  case True
  then show ?thesis by (simp add: undo_def)
next
  case False
  from assms have i: "historyIndex s - 1 < length (history s)" by (auto simp: historyOk_def)
  with assms have "clean (history s ! (historyIndex s - 1))" by (simp add: historyOk_def)
  then have "cloneNodes (history s ! (historyIndex s - 1)) = Inr (history s ! (historyIndex s - 1))"
    by (rule cloneNodes_id)
  with False i show ?thesis by (simp add: undo_def Let_def)
qed

lemma redo_historyOk:
  assumes "historyOk s"
  shows "redo s =
     Inr (if historyIndex s \<ge> length (history s) - 1 then s
          else s\<lparr>historyIndex := historyIndex s + 1, nodes := history s ! (historyIndex s + 1)\<rparr>)"
proof (cases "historyIndex s \<ge> length (history s) - 1")
  case True
  then show ?thesis by (simp add: redo_def)
next
  case False
  then have i: "historyIndex s + 1 < length (history s)" by simp
  with assms have "clean (history s ! (historyIndex s + 1))" by (simp add: historyOk_def)
  then have "cloneNodes (history s ! (historyIndex s + 1)) = Inr (history s ! (historyIndex s + 1))"
    by (rule cloneNodes_id)
  with False i show ?thesis by (simp add: redo_def Let_def)
qed

lemma exec_historyOk:
  assumes "historyOk s" and "exec x s = Inr s'"
  shows "historyOk s'"
proof (cases "trackable x")
  case True
  from trackable_cases[OF True assms(2)] show ?thesis
  proof (elim disjE exE conjE)
    assume "s' = s"
    with assms(1) show ?thesis by simp
  next
    fix nxt snapshot
    assume "cloneNodes nxt = Inr snapshot"
      and "s' = s\<lparr>nodes := nxt,
                   history := take (historyIndex s + 1) (history s) @ [snapshot],
                   historyIndex := historyIndex s + 1\<rparr>"
    with commit_historyOk[OF assms(1), of nxt snapshot] show ?thesis by simp
  qed
next
  case False
  then show ?thesis
  proof (cases x)
    case (UpdateLabel i l)
    with assms show ?thesis by (auto simp: historyOk_def updateLabel_def)
  next
    case Undo
    with assms undo_historyOk[OF assms(1)] show ?thesis
      by (auto simp: historyOk_def split: if_splits)
  next
    case Redo
    with assms redo_historyOk[OF assms(1)] show ?thesis
      by (auto simp: historyOk_def split: if_splits)
  qed simp_all
qed

lemma undo_all:
  assumes "historyOk s" and "historyIndex s = n"
  shows "\<exists>s'. run (replicate n Undo) s = Inr s' \<and> historyIndex s' = 0 \<and>
           history s' = history s \<and> (if n = 0 then s' = s else nodes s' = history s ! 0)"
  using assms
proof (induction n arbitrary: s)
  case 0
  then show ?case by simp
next
  case (Suc n)
  let ?s1 = "s\<lparr>historyIndex := n, nodes := history s ! n\<rparr>"
  from Suc.prems undo_historyOk[of s] have u: "undo s = Inr ?s1" by simp
  from Suc.prems have ok: "historyOk ?s1" by (simp add: historyOk_def)
  from Suc.IH[OF ok] obtain s' where s': "run (replicate n Undo) ?s1 = Inr s'"
    "historyIndex s' = 0" "history s' = history s"
    "if n = 0 then s' = ?s1 else nodes s' = history s ! 0" by auto
  then have "nodes s' = history s ! 0" by (cases "n = 0") auto
  with s' u show ?case by simp
qed

lemma run_trackable:
  assumes "historyOk s1" and "\<forall>x\<in>set ops. trackable x" and "run ops s1 = Inr s"
  shows "historyOk s \<and> historyIndex s = historyIndex s1 + commits ops s1 \<and>
         (commits ops s1 = 0 \<longrightarrow> s = s1)"
  using assms
proof (induction ops arbitrary: s1)
  case Nil
  then show ?case by simp
next
  case (Cons x xs)
  from Cons.prems(3) obtain s2 where e: "exec x s1 = Inr s2" and r: "run xs s2 = Inr s"
    by (auto split: sum.splits)
  from Cons.prems(2) have tx: "trackable x" and txs: "\<forall>x\<in>set xs. trackable x" by simp_all
  from exec_historyOk[OF Cons.prems(1) e] have ok2: "historyOk s2" .
  from Cons.IH[OF ok2 txs r] have ih: "historyOk s" "historyIndex s = historyIndex s2 + commits xs s2"
    "commits xs s2 = 0 \<longrightarrow> s = s2" by simp_all
  from trackable_cases[OF tx e] show ?case
  proof
    assume "s2 = s1"
    with ih e tx show ?thesis by simp
  next
    assume "\<exists>next snapshot. cloneNodes next = Inr snapshot \<and>
              s2 = s1\<lparr>nodes := next,
                       history := take (historyIndex s1 + 1) (history s1) @ [snapshot],
                       historyIndex := historyIndex s1 + 1\<rparr>"
    then have i2: "historyIndex s2 = historyIndex s1 + 1" by auto
    then have "s2 \<noteq> s1" by auto
    with ih e tx i2 show ?thesis by simp
  qed
qed

section \<open>The root\<close>

lemma showNat_nonempty: "showNat n \<noteq> []"
  by (subst showNat.simps) simp

lemma digit_nonzero:
  assumes "0 < n" and "n < 10"
  shows "digit n \<noteq> CHR ''0''"
proof -
  from assms(1) have "digit n = ''123456789'' ! (n - 1)" by (simp add: digit_def nth_Cons')
  moreover from assms have "''123456789'' ! (n - 1) \<in> set ''123456789''"
    by (intro nth_mem) simp
  ultimately show ?thesis by auto
qed

lemma showNat_not_zero: "1 \<le> v \<Longrightarrow> showNat v \<noteq> ''0''"
proof (cases "v < 10")
  case True
  assume "1 \<le> v"
  with True digit_nonzero[of v] show ?thesis by (subst showNat.simps) simp
next
  case False
  have "length (showNat (v div 10)) \<ge> 1"
    using showNat_nonempty[of "v div 10"] by (cases "showNat (v div 10)") auto
  with False show ?thesis by (subst showNat.simps) auto
qed

lemma nextId_not_root: "1 \<le> v \<Longrightarrow> nextId v \<noteq> rootId"
  by (simp add: nextId_def rootId_def showNat_not_zero)

lemma rootOk_update:
  "rootOk (AList.update k v g) =
     (if k = rootId then (\<exists>n. v = Node n \<and> type_node n = Action) else rootOk g)"
  by (auto simp: rootOk_def lookup_update split: entry.splits)

lemma rootOk_delete: "k \<noteq> rootId \<Longrightarrow> rootOk (AList.delete k g) = rootOk g"
  by (simp add: rootOk_def lookup_delete)

lemma rootOk_type: "rootOk g \<Longrightarrow> lookup g rootId = Some n \<Longrightarrow> type_node n = Action"
  by (auto simp: rootOk_def)

lemma addNode_next_inv:
  assumes "keyed g" and "rootOk g" and "newId \<noteq> rootId"
    and "addNode_next newId p l t g = Changed g'"
  shows "keyed g' \<and> rootOk g'"
proof -
  from addNode_next_keyed[OF assms(1,4)] have k: "keyed g'" .
  from addNode_next_shape[OF assms(4)] have "rootOk g'"
  proof (elim disjE exE conjE)
    assume "g' = AList.update newId (Node (createNode newId t)) g"
    with assms(2,3) show ?thesis by (simp add: rootOk_update)
  next
    fix parent cs c
    assume parent: "lookup g p = Some parent"
      and g': "g' = AList.update p (Node (parent\<lparr>children := cs\<rparr>))
        (AList.update newId (Node (attachExistingChild (createNode newId t) c)) g)"
    from assms(2) parent have "p = rootId \<longrightarrow> type_node parent = Action"
      by (auto simp: rootOk_def)
    with assms(2,3) show ?thesis unfolding g' by (simp add: rootOk_update)
  qed
  with k show ?thesis ..
qed

lemma deleteNode_next_inv:
  assumes "keyed g" and "rootOk g" and "t \<noteq> rootId"
    and "deleteNode_next fuel t g = Inr (Changed g')"
  shows "keyed g' \<and> rootOk g'"
proof -
  from deleteNode_next_keyed[OF assms(1,4)] have k: "keyed g'" .
  from deleteNode_next_shape[OF assms(4)] obtain q parent where
    parent: "lookup g q = Some parent"
    and g': "(\<exists>cs. g' = AList.update q (Node (parent\<lparr>children := cs\<rparr>)) (AList.delete t g)) \<or>
             g' = AList.delete t g" by blast
  from assms(2) parent
  have "q = rootId \<longrightarrow> type_node parent = Action" by (auto simp: rootOk_def)
  with g' assms(2,3) have "rootOk g'" by (auto simp: rootOk_update rootOk_delete)
  with k show ?thesis ..
qed

lemma updateLabel_next_inv:
  assumes "keyed g" and "rootOk g"
  shows "keyed (updateLabel_next i l g) \<and> rootOk (updateLabel_next i l g)"
proof -
  from updateLabel_next_keyed[OF assms(1)] have k: "keyed (updateLabel_next i l g)" .
  have "rootOk (updateLabel_next i l g)"
  proof (cases "i = rootId")
    case True
    with assms(2) obtain root where "lookup g i = Some root" "type_node root = Action"
      by (auto simp: rootOk_def)
    with True show ?thesis by (simp add: updateLabel_next_def rootOk_update jsGet_Node)
  next
    case False
    with assms(2) show ?thesis by (simp add: updateLabel_next_def rootOk_update)
  qed
  with k show ?thesis ..
qed

lemma addBranchPath_next_inv:
  assumes "keyed g" and "rootOk g" and "addBranchPath_next n g = Changed g'"
  shows "keyed g' \<and> rootOk g'"
proof -
  from addBranchPath_next_keyed[OF assms(1,3)] have k: "keyed g'" .
  from addBranchPath_next_shape[OF assms(3)] obtain node cs where
    node: "lookup g n = Some node" "type_node node = Branch"
    and g': "g' = AList.update n (Node (node\<lparr>children := cs\<rparr>)) g" by blast
  from assms(2) node have "n \<noteq> rootId" by (auto simp: rootOk_def)
  with assms(2) have "rootOk g'" unfolding g' by (simp add: rootOk_update)
  with k show ?thesis ..
qed

lemma appOk_start: "appOk startApp"
proof -
  have "rootOk defaultGraph" by (simp add: rootOk_def defaultGraph_def lookup_def)
  moreover have "keyed defaultGraph" by (rule clean_keyed) (rule clean_defaultGraph)
  ultimately show ?thesis using historyOk_start by (simp add: appOk_def startApp_def)
qed

lemma applyChange_appOk:
  assumes ok: "appOk s"
    and upd: "\<forall>nxt. updater (nodes s) = Inr (Changed nxt) \<longrightarrow> keyed nxt \<and> rootOk nxt"
    and app: "applyChange updater True s = Inr s'"
  shows "appOk s'"
  using applyChange_cases[OF app]
proof (elim disjE exE conjE)
  assume "s' = s"
  with ok show ?thesis by simp
next
  fix nxt snapshot
  assume u: "updater (nodes s) = Inr (Changed nxt)" and c: "cloneNodes nxt = Inr snapshot"
    and s': "s' = s\<lparr>nodes := nxt,
                     history := take (historyIndex s + 1) (history s) @ [snapshot],
                     historyIndex := historyIndex s + 1\<rparr>"
  from upd u have k: "keyed nxt" and r: "rootOk nxt" by simp_all
  from keyed_clone[OF k c] have sn: "snapshot = nxt" .
  from ok have "historyOk s" by (simp add: appOk_def)
  from commit_historyOk[OF this c] s' have "historyOk s'" by simp
  moreover from ok r sn s' have "\<forall>h\<in>set (history s'). rootOk h"
    by (auto simp: appOk_def dest: in_set_takeD)
  ultimately show ?thesis using k r s' by (simp add: appOk_def)
qed

lemma restore_appOk:
  assumes "appOk s" and "k < length (history s)"
  shows "appOk (s\<lparr>historyIndex := k, nodes := history s ! k\<rparr>)"
proof -
  from assms have "history s ! k \<in> set (history s)" by simp
  with assms(1) have "clean (history s ! k)" "rootOk (history s ! k)"
    by (auto simp: appOk_def historyOk_def)
  with assms show ?thesis by (auto simp: appOk_def historyOk_def dest: clean_keyed)
qed

lemma exec_appOk:
  assumes ok: "appOk s" and c: "counterOk x" and e: "exec x s = Inr s'"
  shows "appOk s'"
proof (cases x)
  case (Insert v p l t)
  with c have "nextId v \<noteq> rootId" by (simp add: nextId_not_root)
  with ok have "\<forall>nxt. addNode_next (nextId v) p l t (nodes s) = Changed nxt \<longrightarrow>
                  keyed nxt \<and> rootOk nxt"
    by (auto simp: appOk_def dest: addNode_next_inv)
  with applyChange_appOk[of s "\<lambda>prev. Inr (addNode_next (nextId v) p l t prev)" s'] ok e Insert
  show ?thesis by (simp add: addNode_def)
next
  case (Delete fuel t)
  show ?thesis
  proof (cases "t = rootId")
    case True
    with e Delete ok show ?thesis by (simp add: deleteNode_def)
  next
    case False
    with ok have "\<forall>nxt. deleteNode_next fuel t (nodes s) = Inr (Changed nxt) \<longrightarrow>
                    keyed nxt \<and> rootOk nxt"
      by (auto simp: appOk_def dest: deleteNode_next_inv)
    with applyChange_appOk[of s "deleteNode_next fuel t" s'] ok e Delete False
    show ?thesis by (simp add: deleteNode_def)
  qed
next
  case (UpdateLabel i l)
  from ok updateLabel_next_inv[of "nodes s" i l] e UpdateLabel show ?thesis
    by (auto simp: appOk_def updateLabel_def historyOk_def)
next
  case (AddBranchPath n)
  from ok have "\<forall>nxt. addBranchPath_next n (nodes s) = Changed nxt \<longrightarrow>
                  keyed nxt \<and> rootOk nxt"
    by (auto simp: appOk_def dest: addBranchPath_next_inv)
  with applyChange_appOk[of s "\<lambda>prev. Inr (addBranchPath_next n prev)" s'] ok e AddBranchPath
  show ?thesis by (simp add: addBranchPath_def)
next
  case Undo
  from ok have h: "historyOk s" by (simp add: appOk_def)
  show ?thesis
  proof (cases "historyIndex s = 0")
    case True
    with undo_historyOk[OF h] e Undo ok show ?thesis by simp
  next
    case False
    from h have "historyIndex s - 1 < length (history s)" by (auto simp: historyOk_def)
    from restore_appOk[OF ok this] undo_historyOk[OF h] e Undo False show ?thesis by simp
  qed
next
  case Redo
  from ok have h: "historyOk s" by (simp add: appOk_def)
  show ?thesis
  proof (cases "historyIndex s \<ge> length (history s) - 1")
    case True
    with redo_historyOk[OF h] e Redo ok show ?thesis by simp
  next
    case False
    then have "historyIndex s + 1 < length (history s)" by simp
    from restore_appOk[OF ok this] redo_historyOk[OF h] e Redo False show ?thesis by simp
  qed
qed

lemma run_appOk:
  assumes "appOk s" and "\<forall>x\<in>set ops. counterOk x" and "run ops s = Inr s'"
  shows "appOk s'"
  using assms
proof (induction ops arbitrary: s)
  case Nil
  then show ?case by simp
next
  case (Cons x xs)
  from Cons.prems(3) obtain s1 where e: "exec x s = Inr s1" and r: "run xs s1 = Inr s'"
    by (auto split: sum.splits)
  from Cons.prems(2) have "counterOk x" "\<forall>x\<in>set xs. counterOk x" by simp_all
  with exec_appOk[OF Cons.prems(1) _ e] Cons.IH[OF _ _ r] show ?case by blast
qed

text \<open>
  C8. After any run of insertions, deletions, label edits, new branch paths, undos and
  redos from the default graph (each insertion with a counter value of at least 1, as the
  effect on \<open>nodes\<close> keeps it), the root id is a key of the node map and the node stored
  under it is an Action node.
\<close>

theorem root_stays_action:
  assumes "\<forall>x\<in>set ops. counterOk x" and "run ops startApp = Inr s"
  shows "rootId \<in> fst ` set (nodes s) \<and>
         (\<exists>root. lookup (nodes s) rootId = Some root \<and> type_node root = Action)"
proof -
  from run_appOk[OF appOk_start assms] have "rootOk (nodes s)" by (simp add: appOk_def)
  then obtain root where r: "lookup (nodes s) rootId = Some root" "type_node root = Action"
    by (auto simp: rootOk_def)
  from lookup_in_set[OF r(1)] have "rootId \<in> fst ` set (nodes s)" by force
  with r show ?thesis by blast
qed

theorem root_stays_action_witness:
  "\<exists>s. run [Insert 1 rootId None Branch, UpdateLabel rootId ''Begin'', AddBranchPath ''node-1'',
            Delete 3 rootId, Delete 3 ''node-1'', Undo, Undo, Redo] startApp = Inr s \<and>
       rootId \<in> fst ` set (nodes s) \<and>
       (\<exists>root. lookup (nodes s) rootId = Some root \<and> type_node root = Action)"
proof -
  let ?ops = "[Insert 1 rootId None Branch, UpdateLabel rootId ''Begin'', AddBranchPath ''node-1'',
            Delete 3 rootId, Delete 3 ''node-1'', Undo, Undo, Redo]"
  have "\<not> isl (run ?ops startApp)" by code_simp
  then obtain s where s: "run ?ops startApp = Inr s" by (cases "run ?ops startApp") auto
  have t: "\<forall>x\<in>set ?ops. counterOk x" by simp
  from root_stays_action[OF t s] s show ?thesis by blast
qed

lemma insert_shape:
  assumes parent: "lookup g p = Some parent"
    and single: "type_node parent = Action \<longrightarrow> length (children parent) \<le> 1"
    and ins: "addNode_next newId p l kind g = Changed g1"
    and pn: "p \<noteq> newId"
    and n: "lookup g1 newId = Some n" and one: "length (filter connected (children n)) = 1"
  shows "\<exists>parent1 S.
           g1 = AList.update p (Node parent1)
                  (AList.update newId (Node (attachExistingChild (createNode newId kind) (Some S))) g) \<and>
           S \<noteq> [] \<and> (p, S) \<in> succs g \<and>
           (\<exists>e\<in>set (children parent1). id_edge e = Some newId) \<and>
           (\<forall>e\<in>set (children parent1). id_edge e = Some newId \<or> id_edge e = None \<or>
               (\<exists>e'\<in>set (children parent). id_edge e' = id_edge e))"
proof -
  from ins parent have nend: "type_node parent \<noteq> End" by (auto simp: addNode_next_def jsGet_Node)
  show ?thesis
  proof (cases "type_node parent = Action")
    case True
    define c where "c = (case children parent of [] \<Rightarrow> None | e # _ \<Rightarrow> id_edge e)"
    let ?n0 = "attachExistingChild (createNode newId kind) c"
    let ?p1 = "parent\<lparr>children := [\<lparr>id_edge = Some newId, label_edge = ''Next''\<rparr>]\<rparr>"
    have g1: "g1 = AList.update p (Node ?p1) (AList.update newId (Node ?n0) g)"
      using addNode_next_Action[OF parent True, of newId l kind] ins by (simp add: c_def)
    from n pn have n0: "n = ?n0" by (simp add: g1 lookup_update)
    from one_adopted[of newId kind c] one n0 have tc: "truthy c" by auto
    then obtain S where S: "c = Some S" "S \<noteq> []" by (cases c) auto
    from tc obtain e0 rest where "children parent = e0 # rest" "id_edge e0 = c"
      by (cases "children parent") (auto simp: c_def)
    with S parent have "(p, S) \<in> succs g" by (auto simp: succs_def)
    with g1 S show ?thesis by (intro exI[of _ ?p1] exI[of _ S]) simp
  next
    case False
    with nend have br: "type_node parent = Branch" by (cases "type_node parent") auto
    define E where "E = ensureBranchEdges (children parent)"
    define j where "j = targetIndex l E"
    define c where "c = id_edge (E ! j)"
    let ?n0 = "attachExistingChild (createNode newId kind) c"
    let ?cs1 = "E[j := (E ! j)\<lparr>id_edge := Some newId\<rparr>]"
    let ?p1 = "parent\<lparr>children := ?cs1\<rparr>"
    have jE: "j < length E" unfolding j_def E_def by (rule targetIndex_less) simp
    have g1: "g1 = AList.update p (Node ?p1) (AList.update newId (Node ?n0) g)"
      using addNode_next_Branch[OF parent br, of newId l kind] ins
      by (simp add: c_def j_def E_def)
    from n pn have n0: "n = ?n0" by (simp add: g1 lookup_update)
    from one_adopted[of newId kind c] one n0 have tc: "truthy c" by auto
    then obtain S where S: "c = Some S" "S \<noteq> []" by (cases c) auto
    from jE have "E ! j \<in> set E" by simp
    with ensure_members[of "E ! j" "children parent"] S
    have "E ! j \<in> set (children parent)" by (auto simp: E_def c_def)
    with S parent have pS: "(p, S) \<in> succs g" by (auto simp: succs_def c_def)
    have ex: "\<exists>e\<in>set ?cs1. id_edge e = Some newId"
      using jE by (intro bexI[of _ "(E ! j)\<lparr>id_edge := Some newId\<rparr>"]) (simp_all add: set_update_memI)
    have all: "id_edge e = Some newId \<or> id_edge e = None \<or>
               (\<exists>e'\<in>set (children parent). id_edge e' = id_edge e)" if "e \<in> set ?cs1" for e
    proof -
      from that have "e = (E ! j)\<lparr>id_edge := Some newId\<rparr> \<or> e \<in> set E"
        by (auto dest: set_update_subset_insert[THEN subsetD])
      then show ?thesis
        using ensure_members[of e "children parent"] by (auto simp: E_def)
    qed
    from g1 S pS ex all show ?thesis
      by (intro exI[of _ ?p1] exI[of _ S]) simp
  qed
qed

lemma no_path_into_unreferenced:
  assumes "\<forall>a. (a, N) \<notin> R" and "(a, N) \<in> R\<^sup>*"
  shows "a = N"
  using assms(2) by (cases rule: rtranclE) (use assms(1) in auto)

lemma acyclic_splice:
  assumes acyc: "acyclic R" and pS: "(p, S) \<in> R" and unref: "\<And>a. (a, N) \<notin> R"
    and from_N: "\<And>b. (N, b) \<notin> R"
  shows "acyclic (insert (p, N) (insert (N, S) R))"
proof -
  from pS unref from_N have SN: "S \<noteq> N" and pN: "p \<noteq> N" by auto
  let ?R2 = "insert (N, S) R"
  from unref have u: "\<forall>a. (a, N) \<notin> R" by blast
  have a2: "acyclic ?R2"
    unfolding acyclic_insert using acyc no_path_into_unreferenced[OF u] SN by blast
  have stay: "(a, b) \<in> R\<^sup>*" if "(a, b) \<in> ?R2\<^sup>*" "a \<noteq> N" for a b
    using that
  proof (induction rule: rtrancl_induct)
    case base
    show ?case by simp
  next
    case (step y z)
    from step.IH[OF step.prems] have ay: "(a, y) \<in> R\<^sup>*" .
    with no_path_into_unreferenced[OF u] step.prems have "y \<noteq> N" by blast
    with step.hyps(2) have "(y, z) \<in> R" by auto
    with ay show ?case by (rule rtrancl_into_rtrancl)
  qed
  have "(N, p) \<notin> ?R2\<^sup>*"
  proof
    assume "(N, p) \<in> ?R2\<^sup>*"
    then show False
    proof (cases rule: converse_rtranclE)
      case base
      with pN show False by simp
    next
      case (step y)
      from step(1) from_N have "y = S" by auto
      with step(2) stay SN have "(S, p) \<in> R\<^sup>*" by blast
      from this pS have "(S, S) \<in> R\<^sup>+" by (rule rtrancl_into_trancl1)
      with acyc show False by (simp add: acyclic_def)
    qed
  qed
  with a2 show ?thesis unfolding acyclic_insert[of p N] by simp
qed

lemma path_without_leaving_target:
  assumes "(y, p) \<in> R\<^sup>*"
  shows "(y, p) \<in> {(a, b). (a, b) \<in> R \<and> a \<noteq> p}\<^sup>*"
  using assms
proof (induction rule: converse_rtrancl_induct)
  case base
  show ?case by simp
next
  case (step y z)
  show ?case
  proof (cases "y = p")
    case True
    then show ?thesis by simp
  next
    case False
    with step.hyps(1) have "(y, z) \<in> {(a, b). (a, b) \<in> R \<and> a \<noteq> p}" by simp
    from this step.IH show ?thesis by (rule converse_rtrancl_into_rtrancl)
  qed
qed

section \<open>The id generator\<close>

lemma removeFirst_prefix: "removeFirst ''node-'' (''node-'' @ s) = s"
  by simp

lemma digitValue_digit: "d < 10 \<Longrightarrow> digitValue (digit d) = Some d"
proof -
  have "\<forall>d\<in>set (upt 0 10). digitValue (digit d) = Some d" by code_simp
  moreover assume "d < 10"
  ultimately show ?thesis by simp
qed

lemma toNumberFrom_snoc:
  "toNumberFrom acc (xs @ [c]) =
     (case toNumberFrom acc xs of
        None \<Rightarrow> None
      | Some v \<Rightarrow> (case digitValue c of None \<Rightarrow> None | Some d \<Rightarrow> Some (10 * v + d)))"
  by (induction xs arbitrary: acc) (auto split: option.splits)

lemma toNumber_showNat: "toNumber (showNat n) = Some n"
proof (induction n rule: showNat.induct)
  case (1 n)
  show ?case
  proof (cases "n < 10")
    case True
    then show ?thesis
      by (subst showNat.simps) (simp add: toNumber_def digitValue_digit)
  next
    case False
    with 1 have ih: "toNumberFrom 0 (showNat (n div 10)) = Some (n div 10)"
      by (simp add: toNumber_def)
    have "n mod 10 < 10" by simp
    then have d: "digitValue (digit (n mod 10)) = Some (n mod 10)" by (rule digitValue_digit)
    from False show ?thesis
      by (subst showNat.simps) (simp add: toNumber_def toNumberFrom_snoc ih d)
  qed
qed

lemma foldl_max_acc:
  "acc \<le> foldl (\<lambda>mx key. case f key of None \<Rightarrow> mx | Some num \<Rightarrow> max mx (num :: nat)) acc ks"
proof (induction ks arbitrary: acc)
  case Nil
  show ?case by simp
next
  case (Cons k ks)
  show ?case
  proof (cases "f k")
    case None
    with Cons.IH[of acc] show ?thesis by simp
  next
    case (Some v)
    with Cons.IH[of "max acc v"] show ?thesis by simp
  qed
qed

lemma foldl_max_elem:
  "k \<in> set ks \<Longrightarrow> f k = Some v \<Longrightarrow>
   v \<le> foldl (\<lambda>mx key. case f key of None \<Rightarrow> mx | Some num \<Rightarrow> max mx (num :: nat)) acc ks"
proof (induction ks arbitrary: acc)
  case Nil
  then show ?case by simp
next
  case (Cons x xs)
  show ?case
  proof (cases "k = x")
    case True
    with Cons.prems(2) foldl_max_acc[of "max acc v" f xs] show ?thesis by simp
  next
    case False
    with Cons.prems have "k \<in> set xs" by simp
    from Cons.IH[OF this Cons.prems(2)] show ?thesis by simp
  qed
qed

lemma maxId_bound:
  assumes "k \<in> fst ` set g" and "toNumber (removeFirst ''node-'' k) = Some v"
  shows "v \<le> maxId g"
proof -
  from assms(1) have "k \<in> set (map fst g)" by simp
  from foldl_max_elem[OF this, of "\<lambda>key. toNumber (removeFirst ''node-'' key)" v 0] assms(2)
  show ?thesis by (simp add: maxId_def)
qed

text \<open>
  The id the generator returns is not a key of the map: not when the counter holds what
  the effect set, and not when it holds more (\<open>Number\<close> reads some keys that \<open>toNumber\<close>
  takes for \<open>NaN\<close>, which can only raise the counter).
\<close>

lemma nextId_fresh_above:
  assumes "idCounter g \<le> v"
  shows "nextId v \<notin> fst ` set g"
proof
  assume "nextId v \<in> fst ` set g"
  moreover have "toNumber (removeFirst ''node-'' (nextId v)) = Some v"
    unfolding nextId_def removeFirst_prefix by (rule toNumber_showNat)
  ultimately have "v \<le> maxId g" by (rule maxId_bound)
  with assms show False by (simp add: idCounter_def)
qed

lemma nextId_fresh: "nextId (idCounter g) \<notin> fst ` set g"
  by (rule nextId_fresh_above) simp

lemma nextId_nonempty: "nextId v \<noteq> []"
  by (simp add: nextId_def)

text \<open>The counter the effect sets is at least 1.\<close>

lemma idCounter_counterOk: "counterOk (Insert (idCounter g) p l t)"
  by (simp add: idCounter_def)

section \<open>Insertion splices the new node in\<close>

lemma splice_paths:
  assumes parent: "lookup g p = Some parent" and cs: "children parent = [e]"
    and e: "id_edge e = Some S" and S: "S \<noteq> []"
    and fresh: "newId \<notin> fst ` set g"
    and lp: "lookup g' p = Some (parent\<lparr>children := [\<lparr>id_edge = Some newId, label_edge = ''Next''\<rparr>]\<rparr>)"
    and ln: "lookup g' newId = Some n" and hd: "children n \<noteq> []" "id_edge (hd (children n)) = Some S"
    and frame: "\<forall>x. x \<noteq> p \<and> x \<noteq> newId \<longrightarrow> lookup g' x = lookup g x"
    and ne: "newId \<noteq> []"
  shows "(p, newId) \<in> succs g' \<and> (newId, S) \<in> succs g' \<and> (succs g)\<^sup>* \<subseteq> (succs g')\<^sup>*"
proof -
  have pn: "(p, newId) \<in> succs g'"
    by (rule succsI[OF lp ne]) simp
  from hd have "hd (children n) \<in> set (children n)" by simp
  with hd(2) have "Some S \<in> id_edge ` set (children n)" by force
  with ln S have nS: "(newId, S) \<in> succs g'" by (rule succsI)
  from fresh have lg: "lookup g newId = None" by (rule lookup_fresh)
  have "succs g \<subseteq> (succs g')\<^sup>*"
  proof
    fix x assume "x \<in> succs g"
    then obtain a b node e' where x: "x = (a, b)" and l: "lookup g a = Some node"
      and e': "e' \<in> set (children node)" "id_edge e' = Some b" "b \<noteq> []"
      by (auto simp: succs_def)
    from l lg have an: "a \<noteq> newId" by auto
    show "x \<in> (succs g')\<^sup>*"
    proof (cases "a = p")
      case True
      with l parent cs e e' have "b = S" by auto
      with True pn nS show ?thesis unfolding x
        by (blast intro: rtrancl_into_rtrancl r_into_rtrancl)
    next
      case False
      with an frame l have "lookup g' a = Some node" by simp
      with e' have "(a, b) \<in> succs g'" unfolding succs_def by blast
      then show ?thesis unfolding x by blast
    qed
  qed
  then have "(succs g)\<^sup>* \<subseteq> (succs g')\<^sup>*" by (rule rtrancl_subset_rtrancl)
  with pn nS show ?thesis by blast
qed


lemma chainGraph_root:
  "lookup chainGraph rootId =
     Some \<lparr>id_node = rootId, label_node = ''Start'', type_node = Action,
            children = [\<lparr>id_edge = Some ''node-1'', label_edge = ''Next''\<rparr>]\<rparr>"
  by (simp add: chainGraph_def lookup_def)

lemma idCounter_chainGraph: "idCounter chainGraph = 2" "nextId 2 = ''node-2''"
proof -
  show "idCounter chainGraph = 2" by code_simp
  have "showNat 2 = ''2''" by code_simp
  then show "nextId 2 = ''node-2''" by (simp add: nextId_def)
qed

lemma chainGraph_spliced:
  "addNode_next ''node-2'' rootId None Branch chainGraph = Changed splicedGraph"
  by code_simp

lemma reachable_chain_successor: "reachable chainGraph ''node-1''"
proof -
  have "(rootId, ''node-1'') \<in> succs chainGraph" by (simp add: succs_chainGraph rootId_def)
  moreover have "lookup chainGraph ''node-1'' \<noteq> None" by code_simp
  ultimately show ?thesis unfolding reachable_def by blast
qed


section \<open>Insertion followed by deletion: the round trip\<close>

lemma resolved_reach:
  assumes "edgesResolved g" and "lookup g a \<noteq> None" and "(a, x) \<in> (succs g)\<^sup>*"
  shows "lookup g x \<noteq> None"
  using assms(3,2)
proof (induction rule: rtrancl_induct)
  case base
  then show ?case .
next
  case (step y z)
  from assms(1) step.hyps(2) show ?case unfolding edgesResolved_def by blast
qed

lemma reach_source_node:
  assumes "(a, x) \<in> (succs g)\<^sup>*" and "lookup g x \<noteq> None"
  shows "lookup g a \<noteq> None"
  using assms(1)
proof (cases rule: converse_rtranclE)
  case base
  with assms(2) show ?thesis by simp
next
  case (step y)
  from step(1) obtain node where "lookup g a = Some node" unfolding succs_def by blast
  then show ?thesis by simp
qed


lemma resolved_chainGraph: "edgesResolved chainGraph"
proof -
  have "lookup chainGraph ''node-1'' \<noteq> None" by code_simp
  then show ?thesis by (simp add: edgesResolved_def succs_chainGraph)
qed

lemma splicedGraph_deleted: "deleteNode_next 3 ''node-2'' splicedGraph = Inr (Changed chainGraph)"
  by code_simp


lemma idCounter_orphanGraph: "idCounter orphanGraph = 4" "nextId 4 = ''node-4''"
proof -
  show "idCounter orphanGraph = 4" by code_simp
  have "showNat 4 = ''4''" by code_simp
  then show "nextId 4 = ''node-4''" by (simp add: nextId_def)
qed

lemma orphanInserted_facts:
  "jsGet orphanInserted rootId =
     Node \<lparr>id_node = rootId, label_node = ''Start'', type_node = Action,
       children = [\<lparr>id_edge = Some ''node-3'', label_edge = ''Next''\<rparr>]\<rparr>"
  "jsGet orphanInserted ''node-3'' =
     Node \<lparr>id_node = ''node-3'', label_node = ''End'', type_node = End, children = []\<rparr>"
  by code_simp+

lemma orphanInserted_not_found:
  "findParent (Suc (Suc fuel)) rootId ''node-4'' orphanInserted = Inr None"
  by (simp add: orphanInserted_facts)

lemma orphanGraph_facts:
  "lookup orphanGraph ''node-0'' =
     Some \<lparr>id_node = rootId, label_node = ''Start'', type_node = Action,
       children = [\<lparr>id_edge = Some ''node-3'', label_edge = ''Next''\<rparr>]\<rparr>"
  "lookup orphanGraph ''node-3'' =
     Some \<lparr>id_node = ''node-3'', label_node = ''End'', type_node = End, children = []\<rparr>"
  "lookup orphanGraph ''node-1'' =
     Some \<lparr>id_node = ''node-1'', label_node = ''Action'', type_node = Action,
       children = [\<lparr>id_edge = Some ''node-2'', label_edge = ''Next''\<rparr>]\<rparr>"
  by code_simp+

lemma orphanGraph_unreached: "(rootId, ''node-1'') \<notin> (succs orphanGraph)\<^sup>*"
proof
  assume "(rootId, ''node-1'') \<in> (succs orphanGraph)\<^sup>*"
  then have "''node-1'' \<in> {''node-0'', ''node-3''}"
  proof (rule reach_closed)
    show "rootId \<in> {''node-0'', ''node-3''}" by (simp add: rootId_def)
  next
    fix a b assume "a \<in> {''node-0'', ''node-3''}" "(a, b) \<in> succs orphanGraph"
    then show "b \<in> {''node-0'', ''node-3''}"
      by (auto simp: succs_iff orphanGraph_facts)
  qed
  then show False by simp
qed


section \<open>Recorded changes\<close>

lemma initialApp_stateOk:
  assumes "initialApp loaded = Inr s0"
  shows "stateOk s0"
proof -
  from assms obtain g where g: "cloneNodes loaded = Inr g"
    and s0: "s0 = \<lparr>nodes = g, history = [g], historyIndex = 0\<rparr>"
    by (auto simp: initialApp_def split: sum.splits)
  from cloneNodes_clean[OF g] have "clean g" .
  then show ?thesis by (simp add: stateOk_def s0 clean_keyed)
qed

lemma applyChange_keyed:
  assumes k: "keyed (nodes s)"
    and upd: "\<forall>nxt. updater (nodes s) = Inr (Changed nxt) \<longrightarrow> keyed nxt"
    and app: "applyChange updater True s = Inr s'"
  shows "s' = s \<or>
         (\<exists>nxt. keyed nxt \<and> cloneNodes nxt = Inr nxt \<and>
            s' = s\<lparr>nodes := nxt,
                   history := take (historyIndex s + 1) (history s) @ [nxt],
                   historyIndex := historyIndex s + 1\<rparr>)"
  using applyChange_cases[OF app]
proof (elim disjE exE conjE)
  assume "s' = s"
  then show ?thesis ..
next
  fix nxt snapshot
  assume u: "updater (nodes s) = Inr (Changed nxt)" and c: "cloneNodes nxt = Inr snapshot"
    and s': "s' = s\<lparr>nodes := nxt,
                     history := take (historyIndex s + 1) (history s) @ [snapshot],
                     historyIndex := historyIndex s + 1\<rparr>"
  from upd u have kn: "keyed nxt" by simp
  from keyed_clone[OF kn c] have sn: "snapshot = nxt" .
  from kn c s' show ?thesis unfolding sn by blast
qed

lemma trackable_commit:
  assumes "trackable x" and "exec x s = Inr s'" and "keyed (nodes s)"
  shows "s' = s \<or>
         (\<exists>nxt. keyed nxt \<and> cloneNodes nxt = Inr nxt \<and>
            s' = s\<lparr>nodes := nxt,
                   history := take (historyIndex s + 1) (history s) @ [nxt],
                   historyIndex := historyIndex s + 1\<rparr>)"
proof (cases x)
  case (Insert v p l t)
  have "\<forall>nxt. Inr (addNode_next (nextId v) p l t (nodes s)) = Inr (Changed nxt) \<longrightarrow> keyed nxt"
    using addNode_next_keyed[OF assms(3)] by auto
  from applyChange_keyed[where updater = "\<lambda>prev. Inr (addNode_next (nextId v) p l t prev)",
      OF assms(3) this] assms(2) Insert show ?thesis
    by (simp add: addNode_def)
next
  case (Delete fuel t)
  show ?thesis
  proof (cases "t = rootId")
    case True
    with assms(2) Delete show ?thesis by (simp add: deleteNode_def)
  next
    case False
    have "\<forall>nxt. deleteNode_next fuel t (nodes s) = Inr (Changed nxt) \<longrightarrow> keyed nxt"
      using deleteNode_next_keyed[OF assms(3)] by auto
    from applyChange_keyed[where updater = "deleteNode_next fuel t", OF assms(3) this]
      assms(2) Delete False show ?thesis
      by (simp add: deleteNode_def)
  qed
next
  case (AddBranchPath n)
  have "\<forall>nxt. Inr (addBranchPath_next n (nodes s)) = Inr (Changed nxt) \<longrightarrow> keyed nxt"
    using addBranchPath_next_keyed[OF assms(3)] by auto
  from applyChange_keyed[where updater = "\<lambda>prev. Inr (addBranchPath_next n prev)",
      OF assms(3) this] assms(2) AddBranchPath show ?thesis
    by (simp add: addBranchPath_def)
qed (use assms(1) in simp_all)

lemma exec_stateOk:
  assumes "stateOk s" and "exec x s = Inr s'"
  shows "stateOk s'"
proof (cases "trackable x")
  case True
  from assms(1) have k: "keyed (nodes s)" by (simp add: stateOk_def)
  from trackable_commit[OF True assms(2) k] show ?thesis
  proof (elim disjE exE conjE)
    assume "s' = s"
    with assms(1) show ?thesis by simp
  next
    fix nxt
    assume kn: "keyed nxt" and c: "cloneNodes nxt = Inr nxt"
      and s': "s' = s\<lparr>nodes := nxt,
                   history := take (historyIndex s + 1) (history s) @ [nxt],
                   historyIndex := historyIndex s + 1\<rparr>"
    from cloneNodes_clean[OF c] have "clean nxt" .
    with assms(1) kn show ?thesis
      unfolding s' stateOk_def by (auto dest: in_set_takeD)
  qed
next
  case False
  then show ?thesis
  proof (cases x)
    case (UpdateLabel i l)
    with assms show ?thesis by (auto simp: stateOk_def updateLabel_def updateLabel_next_keyed)
  next
    case Undo
    show ?thesis
    proof (cases "historyIndex s = 0")
      case True
      with assms Undo show ?thesis by (simp add: undo_def)
    next
      case nz: False
      from assms(1) have i: "historyIndex s - 1 < length (history s)" by (auto simp: stateOk_def)
      with assms(1) have c: "clean (history s ! (historyIndex s - 1))" by (simp add: stateOk_def)
      from cloneNodes_id[OF c] nz i assms(2) Undo
      have "s' = s\<lparr>historyIndex := historyIndex s - 1, nodes := history s ! (historyIndex s - 1)\<rparr>"
        by (simp add: undo_def Let_def)
      with assms(1) i clean_keyed[OF c] show ?thesis by (simp add: stateOk_def)
    qed
  next
    case Redo
    show ?thesis
    proof (cases "historyIndex s \<ge> length (history s) - 1")
      case True
      with assms Redo show ?thesis by (simp add: redo_def)
    next
      case nl: False
      then have i: "historyIndex s + 1 < length (history s)" by simp
      with assms(1) have c: "clean (history s ! (historyIndex s + 1))" by (simp add: stateOk_def)
      from cloneNodes_id[OF c] nl i assms(2) Redo
      have "s' = s\<lparr>historyIndex := historyIndex s + 1, nodes := history s ! (historyIndex s + 1)\<rparr>"
        by (simp add: redo_def Let_def)
      with assms(1) i clean_keyed[OF c] show ?thesis by (simp add: stateOk_def)
    qed
  qed simp_all
qed

lemma run_stateOk:
  assumes "stateOk s" and "run ops s = Inr s'"
  shows "stateOk s'"
  using assms
proof (induction ops arbitrary: s)
  case Nil
  then show ?case by simp
next
  case (Cons x xs)
  from Cons.prems(2) obtain s1 where e: "exec x s = Inr s1" and r: "run xs s1 = Inr s'"
    by (auto split: sum.splits)
  from exec_stateOk[OF Cons.prems(1) e] have "stateOk s1" .
  from Cons.IH[OF this r] show ?case .
qed

text \<open>A recorded change at a state of the application: the history is cut behind the
  cursor, the new graph itself is appended, by value, and the cursor is on it, at the
  end of the history.\<close>

lemma commit_appends_graph:
  assumes "stateOk s1" and "trackable x" and "exec x s1 = Inr s2" and "s2 \<noteq> s1"
  shows "history s2 = take (historyIndex s1 + 1) (history s1) @ [nodes s2] \<and>
         historyIndex s2 = historyIndex s1 + 1 \<and>
         length (history s2) = historyIndex s2 + 1 \<and>
         history s2 ! historyIndex s2 = nodes s2 \<and>
         cloneNodes (nodes s2) = Inr (nodes s2)"
proof -
  from assms(1) have k: "keyed (nodes s1)" and i: "historyIndex s1 < length (history s1)"
    by (simp_all add: stateOk_def)
  from trackable_commit[OF assms(2,3) k] assms(4) obtain nxt where
    c: "cloneNodes nxt = Inr nxt"
    and s2: "s2 = s1\<lparr>nodes := nxt,
                   history := take (historyIndex s1 + 1) (history s1) @ [nxt],
                   historyIndex := historyIndex s1 + 1\<rparr>" by blast
  from i have l: "length (take (historyIndex s1 + 1) (history s1)) = historyIndex s1 + 1"
    by simp
  have n: "(take (historyIndex s1 + 1) (history s1) @ [nxt]) ! (historyIndex s1 + 1) = nxt"
    using l by (metis nth_append_length)
  from c l n show ?thesis unfolding s2 by simp
qed

section \<open>Commit and undo\<close>

text \<open>
  C5. A recorded change (an insertion, a deletion or a new branch path that changes the
  graph) at a state of the application, whatever graph it was started from, cuts the
  history behind the cursor, appends the new graph itself as the snapshot and moves the
  cursor one step, onto that last entry; at any state whatever the appended entry is the
  \<open>cloneNodes\<close> copy of the new graph. A label edit leaves history and cursor alone. So
  after a run of such operations from the default graph, of which N were recorded, the
  cursor is N, N undos make the live graph equal to the default graph, and one more undo
  changes nothing.
\<close>

theorem commit_then_undo:
  assumes "\<forall>x\<in>set ops. trackable x" and "run ops startApp = Inr s"
  shows "historyIndex s = commits ops startApp \<and>
         (\<exists>s'. run (replicate (commits ops startApp) Undo) s = Inr s' \<and>
               nodes s' = defaultGraph \<and> historyIndex s' = 0 \<and> undo s' = Inr s') \<and>
         (initialApp loaded = Inr s0 \<and> run pre s0 = Inr s1 \<and>
          trackable x \<and> exec x s1 = Inr s2 \<and> s2 \<noteq> s1 \<longrightarrow>
            history s2 = take (historyIndex s1 + 1) (history s1) @ [nodes s2] \<and>
            historyIndex s2 = historyIndex s1 + 1 \<and>
            length (history s2) = historyIndex s2 + 1 \<and>
            history s2 ! historyIndex s2 = nodes s2 \<and>
            cloneNodes (nodes s2) = Inr (nodes s2)) \<and>
         (trackable x \<and> exec x s3 = Inr s4 \<and> s4 \<noteq> s3 \<longrightarrow>
            (\<exists>snapshot. cloneNodes (nodes s4) = Inr snapshot \<and>
               history s4 = take (historyIndex s3 + 1) (history s3) @ [snapshot] \<and>
               historyIndex s4 = historyIndex s3 + 1)) \<and>
         history (updateLabel i l s3) = history s3 \<and>
         historyIndex (updateLabel i l s3) = historyIndex s3"
proof -
  from run_trackable[OF historyOk_start assms] have ok: "historyOk s"
    and n: "historyIndex s = commits ops startApp"
    and z: "commits ops startApp = 0 \<longrightarrow> s = startApp"
    by (simp_all add: startApp_def)
  from undo_all[OF ok n] obtain s' where s': "run (replicate (commits ops startApp) Undo) s = Inr s'"
    "historyIndex s' = 0" "history s' = history s"
    "if commits ops startApp = 0 then s' = s else nodes s' = history s ! 0" by blast
  from ok have "history s ! 0 = defaultGraph" by (simp add: historyOk_def)
  with s'(4) z have d: "nodes s' = defaultGraph" by (auto simp: startApp_def split: if_splits)
  from s'(2) have u: "undo s' = Inr s'" by (simp add: undo_def)
  have c: "\<exists>snapshot. cloneNodes (nodes s4) = Inr snapshot \<and>
               history s4 = take (historyIndex s3 + 1) (history s3) @ [snapshot] \<and>
               historyIndex s4 = historyIndex s3 + 1"
    if "trackable x" "exec x s3 = Inr s4" "s4 \<noteq> s3"
    using trackable_cases[OF that(1,2)] that(3) by auto
  have a: "history s2 = take (historyIndex s1 + 1) (history s1) @ [nodes s2] \<and>
           historyIndex s2 = historyIndex s1 + 1 \<and>
           length (history s2) = historyIndex s2 + 1 \<and>
           history s2 ! historyIndex s2 = nodes s2 \<and>
           cloneNodes (nodes s2) = Inr (nodes s2)"
    if "initialApp loaded = Inr s0" "run pre s0 = Inr s1" "trackable x" "exec x s1 = Inr s2"
      "s2 \<noteq> s1"
  proof -
    from initialApp_stateOk[OF that(1)] have "stateOk s0" .
    from run_stateOk[OF this that(2)] have "stateOk s1" .
    from commit_appends_graph[OF this that(3,4,5)] show ?thesis .
  qed
  have e: "history (updateLabel i l s3) = history s3"
    "historyIndex (updateLabel i l s3) = historyIndex s3" by (simp_all add: updateLabel_def)
  from n s'(1) d s'(2) u have b: "\<exists>s'. run (replicate (commits ops startApp) Undo) s = Inr s' \<and>
               nodes s' = defaultGraph \<and> historyIndex s' = 0 \<and> undo s' = Inr s'" by blast
  from a have a': "initialApp loaded = Inr s0 \<and> run pre s0 = Inr s1 \<and>
          trackable x \<and> exec x s1 = Inr s2 \<and> s2 \<noteq> s1 \<longrightarrow>
            history s2 = take (historyIndex s1 + 1) (history s1) @ [nodes s2] \<and>
            historyIndex s2 = historyIndex s1 + 1 \<and>
            length (history s2) = historyIndex s2 + 1 \<and>
            history s2 ! historyIndex s2 = nodes s2 \<and>
            cloneNodes (nodes s2) = Inr (nodes s2)" by blast
  from c have c': "trackable x \<and> exec x s3 = Inr s4 \<and> s4 \<noteq> s3 \<longrightarrow>
            (\<exists>snapshot. cloneNodes (nodes s4) = Inr snapshot \<and>
               history s4 = take (historyIndex s3 + 1) (history s3) @ [snapshot] \<and>
               historyIndex s4 = historyIndex s3 + 1)" by blast
  show ?thesis by (intro conjI n b a' c' e)
qed

lemma initialApp_defaultGraph: "initialApp defaultGraph = Inr startApp"
  by (simp add: initialApp_def cloneNodes_def defaultGraph_def startApp_def rootId_def)

theorem commit_then_undo_witness:
  "(\<exists>s. run [Insert 1 rootId None Action, Insert 2 rootId None Branch, Delete 3 ''node-2'']
          startApp = Inr s \<and>
       historyIndex s = 3 \<and>
       (\<exists>s'. run [Undo, Undo, Undo] s = Inr s' \<and> nodes s' = defaultGraph \<and>
             historyIndex s' = 0 \<and> undo s' = Inr s')) \<and>
   (\<exists>s1 s2. initialApp defaultGraph = Inr startApp \<and>
       run [Insert 1 rootId None Action, Insert 2 ''node-1'' None Action, Undo] startApp = Inr s1 \<and>
       length (history s1) = 3 \<and> historyIndex s1 = 1 \<and>
       exec (Insert 2 rootId None Branch) s1 = Inr s2 \<and> s2 \<noteq> s1 \<and>
       nodes s2 = splicedGraph \<and>
       history s2 = [defaultGraph, chainGraph, splicedGraph] \<and> historyIndex s2 = 2)"
proof -
  let ?ops = "[Insert 1 rootId None Action, Insert 2 rootId None Branch, Delete 3 ''node-2'']"
  let ?pre = "[Insert 1 rootId None Action, Insert 2 ''node-1'' None Action, Undo]"
  let ?x = "Insert 2 rootId None Branch"
  have "\<not> isl (run ?ops startApp)" by code_simp
  then obtain s where s: "run ?ops startApp = Inr s" by (cases "run ?ops startApp") auto
  have c: "commits ?ops startApp = 3" by code_simp
  have t: "\<forall>x\<in>set ?ops. trackable x" by simp
  have r: "replicate 3 Undo = [Undo, Undo, Undo]" by (simp add: numeral_3_eq_3)
  have "case run ?pre startApp of Inl f \<Rightarrow> False
        | Inr s1 \<Rightarrow> length (history s1) = 3 \<and> historyIndex s1 = 1 \<and>
            take 2 (history s1) = [defaultGraph, chainGraph] \<and>
            (case exec ?x s1 of Inl f \<Rightarrow> False
             | Inr s2 \<Rightarrow> nodes s2 = splicedGraph \<and> historyIndex s2 \<noteq> 1)"
    by code_simp
  then obtain s1 s2 where s1: "run ?pre startApp = Inr s1" "length (history s1) = 3"
    "historyIndex s1 = 1" "take 2 (history s1) = [defaultGraph, chainGraph]"
    and s2: "exec ?x s1 = Inr s2" "nodes s2 = splicedGraph" and i2: "historyIndex s2 \<noteq> 1"
    by (auto split: sum.splits)
  from commit_then_undo[OF t s, of defaultGraph startApp ?pre s1 ?x s2]
  have u: "historyIndex s = commits ?ops startApp"
    "\<exists>s'. run (replicate (commits ?ops startApp) Undo) s = Inr s' \<and>
               nodes s' = defaultGraph \<and> historyIndex s' = 0 \<and> undo s' = Inr s'"
    and h: "initialApp defaultGraph = Inr startApp \<and> run ?pre startApp = Inr s1 \<and>
          trackable ?x \<and> exec ?x s1 = Inr s2 \<and> s2 \<noteq> s1 \<longrightarrow>
            history s2 = take (historyIndex s1 + 1) (history s1) @ [nodes s2] \<and>
            historyIndex s2 = historyIndex s1 + 1"
    by blast+
  from i2 s1(3) have ne: "s2 \<noteq> s1" by auto
  from h initialApp_defaultGraph s1(1) s2(1) ne
  have "history s2 = take (historyIndex s1 + 1) (history s1) @ [nodes s2]"
    "historyIndex s2 = historyIndex s1 + 1" by simp_all
  with s1(3,4) s2(2) have h2: "history s2 = [defaultGraph, chainGraph, splicedGraph]"
    "historyIndex s2 = 2" by (simp_all add: numeral_2_eq_2)
  from u c r s have A: "\<exists>s. run ?ops startApp = Inr s \<and> historyIndex s = 3 \<and>
       (\<exists>s'. run [Undo, Undo, Undo] s = Inr s' \<and> nodes s' = defaultGraph \<and>
             historyIndex s' = 0 \<and> undo s' = Inr s')" by auto
  from initialApp_defaultGraph s1(1,2,3) s2 ne h2
  have B: "\<exists>s1 s2. initialApp defaultGraph = Inr startApp \<and>
       run ?pre startApp = Inr s1 \<and>
       length (history s1) = 3 \<and> historyIndex s1 = 1 \<and>
       exec ?x s1 = Inr s2 \<and> s2 \<noteq> s1 \<and>
       nodes s2 = splicedGraph \<and>
       history s2 = [defaultGraph, chainGraph, splicedGraph] \<and> historyIndex s2 = 2" by blast
  from A B show ?thesis ..
qed

end
